theory Spec2Isabelle
  imports Main "HOL-Library.Word"
begin

unbundle bit_operations_syntax

section \<open>Common types\<close>

type_synonym u64 = "64 word"
type_synonym byte = "8 word"

text \<open>
  Every way the Go program stops early is a value: \<open>log.Fatal\<close> with its message,
  \<open>log.Fatal(err)\<close> on a failed read of the dump stream, and a run-time panic
  (index or slice bound out of range).
\<close>

datatype error = Fatal string | ReadFailed | Panic

text \<open>
  The message of \<open>log.Fatal(v...)\<close> is \<open>fmt.Sprint(v...)\<close>: the operands in their default
  formats, with a space between two operands when neither is a string. An unsigned
  integer is printed in decimal.
\<close>

fun decimal :: "nat \<Rightarrow> string" where
  "decimal n = (if n < 10 then [''0123456789'' ! n] else decimal (n div 10) @ [''0123456789'' ! (n mod 10)])"

declare decimal.simps [simp del]

section \<open>The viewer (hview/main.go)\<close>

subsection \<open>Goroutine list\<close>

text \<open>
  The viewer is written against the package \<open>read\<close>, which is not part of the sources at
  hand. The handler reads three fields of a goroutine; they are the fields of this record.
\<close>

record read_GoRoutine =
  Addr :: u64
  Status :: u64
  WaitReason :: string

record goListInfo =
  Name :: string
  State :: string

text \<open>\<open>%x\<close> of \<open>fmt.Sprintf\<close>: lower-case hexadecimal without leading zeros.\<close>

definition hexdigit :: "nat \<Rightarrow> char" where
  "hexdigit n = ''0123456789abcdef'' ! n"

fun hex :: "nat \<Rightarrow> string" where
  "hex n = (if n < 16 then [hexdigit n] else hex (n div 16) @ [hexdigit (n mod 16)])"

definition goName :: "read_GoRoutine \<Rightarrow> string" where
  "goName g = ''<a href=go?id='' @ hex (unat (Addr g)) @ ''>goroutine '' @ hex (unat (Addr g)) @ ''</a>''"

text \<open>The \<open>switch g.Status\<close> of \<open>goListHandler\<close>.\<close>

definition goState :: "read_GoRoutine \<Rightarrow> error + string" where
  "goState g =
     (if Status g = 0 then Inr ''idle''
      else if Status g = 1 then Inr ''runnable''
      else if Status g = 2 then Inl (Fatal ''found running goroutine in heap dump'')
      else if Status g = 3 then Inr ''syscall''
      else if Status g = 4 then Inr (WaitReason g)
      else if Status g = 5 then Inr ''dead''
      else Inl (Fatal ''unknown goroutine status''))"

text \<open>
  The loop of \<open>goListHandler\<close> over \<open>d.Goroutines\<close>, with the slice \<open>i\<close> it appends to.
  The handler then sorts \<open>i\<close> by state and renders it; the model stops before the sort.
\<close>

fun goListHandler :: "goListInfo list \<Rightarrow> read_GoRoutine list \<Rightarrow> error + goListInfo list" where
  "goListHandler i [] = Inr i"
| "goListHandler i (g # gs) =
     (case goState g of
        Inl e \<Rightarrow> Inl e
      | Inr state \<Rightarrow> goListHandler (i @ [\<lparr>Name = goName g, State = state\<rparr>]) gs)"

subsection \<open>Reverse-edge index\<close>

type_synonym ObjId = int

record read_Edge =
  To :: ObjId
  FromOffset :: u64
  ToOffset :: u64
  FieldName :: string

text \<open>
  What \<open>prepare\<close> asks of the loaded dump \<open>d\<close>: the number of objects, the edges of an
  object, the id of its full type, its size, and the number of full types. The package
  that answers is not at hand, so the answers are parameters.
\<close>

record read_Dump =
  nObjects :: nat
  Edges :: "ObjId \<Rightarrow> read_Edge list"
  FtId :: "ObjId \<Rightarrow> int"
  Size :: "ObjId \<Rightarrow> u64"
  nFTList :: nat

record bucket =
  bytes :: u64
  objects :: "ObjId list"

text \<open>A slice index is in range; otherwise Go panics.\<close>

definition inrange :: "int \<Rightarrow> nat \<Rightarrow> bool" where
  "inrange i n = (0 \<le> i \<and> nat i < n)"

text \<open>The ids \<open>read.ObjId(i)\<close> of \<open>for i := range d.Objects\<close>.\<close>

definition objIds :: "read_Dump \<Rightarrow> ObjId list" where
  "objIds d = map int [0..<nObjects d]"

text \<open>First loop of \<open>prepare\<close>: group objects by type.\<close>

fun groupByType :: "read_Dump \<Rightarrow> ObjId list \<Rightarrow> bucket list \<Rightarrow> bucket list option" where
  "groupByType d [] byType = Some byType"
| "groupByType d (x # xs) byType =
     (let tid = FtId d x in
      if inrange tid (length byType) then
        (let b = byType ! nat tid;
             b' = b\<lparr>bytes := bytes b + Size d x, objects := objects b @ [x]\<rparr>
         in groupByType d xs (byType[nat tid := b']))
      else None)"

text \<open>\<open>ref2[k]\<close>: a key that is absent reads as the empty slice.\<close>

definition ref2_at :: "(ObjId \<rightharpoonup> ObjId list) \<Rightarrow> ObjId \<Rightarrow> ObjId list" where
  "ref2_at ref2 k = (case ref2 k of None \<Rightarrow> [] | Some ys \<Rightarrow> ys)"

text \<open>The inner loop \<open>for _, e := range d.Edges(x)\<close> on the pair \<open>(ref1, ref2)\<close>.\<close>

fun refEdges :: "ObjId \<Rightarrow> ObjId list \<times> (ObjId \<rightharpoonup> ObjId list) \<Rightarrow> read_Edge list
    \<Rightarrow> (ObjId list \<times> (ObjId \<rightharpoonup> ObjId list)) option" where
  "refEdges x (ref1, ref2) [] = Some (ref1, ref2)"
| "refEdges x (ref1, ref2) (e # es) =
     (if inrange (To e) (length ref1) then
        (if ref1 ! nat (To e) < 0
         then refEdges x (ref1[nat (To e) := x], ref2) es
         else refEdges x (ref1, ref2(To e \<mapsto> ref2_at ref2 (To e) @ [x])) es)
      else None)"

text \<open>The outer loop \<open>for i := range d.Objects\<close>.\<close>

fun refObjects :: "read_Dump \<Rightarrow> ObjId list \<Rightarrow> ObjId list \<times> (ObjId \<rightharpoonup> ObjId list)
    \<Rightarrow> (ObjId list \<times> (ObjId \<rightharpoonup> ObjId list)) option" where
  "refObjects d [] refs = Some refs"
| "refObjects d (x # xs) refs =
     (case refEdges x refs (Edges d x) of
        None \<Rightarrow> None
      | Some refs' \<Rightarrow> refObjects d xs refs')"

text \<open>
  \<open>prepare\<close>: the histogram \<open>byType\<close>, then \<open>ref1\<close> (every slot the sentinel \<open>-1\<close>) and
  \<open>ref2\<close> (empty) filled by the two loops. \<open>None\<close> is a panic. The lines that follow in
  the source only print totals.
\<close>

definition prepare :: "read_Dump \<Rightarrow> (bucket list \<times> ObjId list \<times> (ObjId \<rightharpoonup> ObjId list)) option" where
  "prepare d =
     (case groupByType d (objIds d) (replicate (nFTList d) \<lparr>bytes = 0, objects = []\<rparr>) of
        None \<Rightarrow> None
      | Some byType \<Rightarrow>
          (case refObjects d (objIds d) (replicate (nObjects d) (- 1), Map.empty) of
             None \<Rightarrow> None
           | Some (ref1, ref2) \<Rightarrow> Some (byType, ref1, ref2)))"

text \<open>
  The referrers recorded for \<open>k\<close>, as \<open>getReferrers\<close> reads them: \<open>ref1[k]\<close> unless it is
  the sentinel, then the entries of \<open>ref2[k]\<close>.
\<close>

definition referrers :: "ObjId list \<Rightarrow> (ObjId \<rightharpoonup> ObjId list) \<Rightarrow> ObjId \<Rightarrow> ObjId list" where
  "referrers ref1 ref2 k = (if ref1 ! nat k = - 1 then [] else [ref1 ! nat k]) @ ref2_at ref2 k"

text \<open>The sources of the edges into \<open>k\<close> among the edges \<open>es\<close> of \<open>x\<close>, one entry per edge.\<close>

definition edgeSources :: "ObjId \<Rightarrow> ObjId \<Rightarrow> read_Edge list \<Rightarrow> ObjId list" where
  "edgeSources k x es = map (\<lambda>e. x) (filter (\<lambda>e. To e = k) es)"


text \<open>Two small object graphs: one object with three edges to another, and two objects
  with one edge each to a third.\<close>

definition one_source_three_edges :: read_Dump where
  "one_source_three_edges =
     \<lparr>nObjects = 2,
      Edges = (\<lambda>x. if x = 0 then
                 [\<lparr>To = 1, FromOffset = 0, ToOffset = 0, FieldName = []\<rparr>,
                  \<lparr>To = 1, FromOffset = 8, ToOffset = 0, FieldName = []\<rparr>,
                  \<lparr>To = 1, FromOffset = 16, ToOffset = 4, FieldName = []\<rparr>] else []),
      FtId = (\<lambda>x. 0), Size = (\<lambda>x. 24), nFTList = 1\<rparr>"

definition two_sources :: read_Dump where
  "two_sources =
     \<lparr>nObjects = 3,
      Edges = (\<lambda>x. if x = 0 then [\<lparr>To = 2, FromOffset = 0, ToOffset = 0, FieldName = []\<rparr>]
                    else if x = 1 then [\<lparr>To = 2, FromOffset = 8, ToOffset = 4, FieldName = []\<rparr>]
                    else []),
      FtId = (\<lambda>x. 0), Size = (\<lambda>x. 16), nFTList = 1\<rparr>"

text \<open>The invariant of the two loops: a slot of \<open>ref1\<close> is the sentinel or an object id,
  and \<open>ref2\<close> has entries only where \<open>ref1\<close> is set.\<close>

definition refs_inv :: "ObjId list \<times> (ObjId \<rightharpoonup> ObjId list) \<Rightarrow> bool" where
  "refs_inv refs = (\<forall>k. (inrange k (length (fst refs)) \<and> fst refs ! nat k \<noteq> - 1 \<longrightarrow> 0 \<le> fst refs ! nat k) \<and>
      (inrange k (length (fst refs)) \<and> fst refs ! nat k = - 1 \<longrightarrow> ref2_at (snd refs) k = []))"

section \<open>The dump reader (readdump.go)\<close>

subsection \<open>Data model\<close>

text \<open>
  \<open>fieldKind\<close> and \<open>typeKind\<close> are integers read from the dump without a check, so a kind
  is the 64-bit value read; the constants name the values the code compares with.
\<close>

abbreviation (input) fieldKindPtr :: u64 where "fieldKindPtr \<equiv> 0"
abbreviation (input) fieldKindString :: u64 where "fieldKindString \<equiv> 1"
abbreviation (input) fieldKindSlice :: u64 where "fieldKindSlice \<equiv> 2"
abbreviation (input) fieldKindIface :: u64 where "fieldKindIface \<equiv> 3"
abbreviation (input) fieldKindEface :: u64 where "fieldKindEface \<equiv> 4"

abbreviation (input) typeKindObject :: u64 where "typeKindObject \<equiv> 0"
abbreviation (input) typeKindArray :: u64 where "typeKindArray \<equiv> 1"
abbreviation (input) typeKindChan :: u64 where "typeKindChan \<equiv> 2"

abbreviation (input) tagObject :: u64 where "tagObject \<equiv> 1"
abbreviation (input) tagEOF :: u64 where "tagEOF \<equiv> 3"
abbreviation (input) tagStackRoot :: u64 where "tagStackRoot \<equiv> 4"
abbreviation (input) tagDataRoot :: u64 where "tagDataRoot \<equiv> 5"
abbreviation (input) tagOtherRoot :: u64 where "tagOtherRoot \<equiv> 6"
abbreviation (input) tagType :: u64 where "tagType \<equiv> 7"
abbreviation (input) tagGoRoutine :: u64 where "tagGoRoutine \<equiv> 8"
abbreviation (input) tagStackFrame :: u64 where "tagStackFrame \<equiv> 9"
abbreviation (input) tagParams :: u64 where "tagParams \<equiv> 10"
abbreviation (input) tagFinalizer :: u64 where "tagFinalizer \<equiv> 11"
abbreviation (input) tagItab :: u64 where "tagItab \<equiv> 12"
abbreviation (input) tagOSThread :: u64 where "tagOSThread \<equiv> 13"
abbreviation (input) tagMemStats :: u64 where "tagMemStats \<equiv> 14"

datatype ByteOrder = LittleEndian | BigEndian

text \<open>The default format of a \<open>binary.ByteOrder\<close>: its \<open>String\<close> method, \<open><nil>\<close> when it is not set.\<close>

fun orderString :: "ByteOrder option \<Rightarrow> string" where
  "orderString None = ''<nil>''"
| "orderString (Some LittleEndian) = ''LittleEndian''"
| "orderString (Some BigEndian) = ''BigEndian''"

text \<open>
  A pointer \<open>*Object\<close> is the index of the object in \<open>d.objects\<close>, a pointer
  \<open>*StackFrame\<close> the index of the frame in \<open>d.frames\<close>, a pointer \<open>*GoRoutine\<close> the
  index in \<open>d.goroutines\<close>; \<open>nil\<close> is \<open>None\<close>. A \<open>*Type\<close> is the type itself: no type is
  written after it is read.
\<close>

record Edge =
  to :: nat
  fromoffset :: u64
  tooffset :: u64

record Field =
  kind :: u64
  offset :: u64

record Type =
  name :: string
  size' :: u64
  efaceptr :: bool
  fields' :: "Field list"
  addr :: u64

record Object =
  typ' :: "Type option"
  kind :: u64
  data :: "byte list"
  edges :: "Edge list"
  addr :: u64
  typaddr :: u64

text \<open>The edge \<open>e\<close> of a root (the field \<open>e'\<close>) is \<open>None\<close> while it is the zero \<open>Edge{nil, 0, 0}\<close>.\<close>

record StackRoot =
  frame :: "nat option"
  e' :: "Edge option"
  fromaddr :: u64
  toaddr :: u64
  frameaddr :: u64
  depth :: u64

record DataRoot =
  name :: string
  e' :: "Edge option"
  fromaddr :: u64
  toaddr :: u64

record OtherRoot =
  description :: string
  e' :: "Edge option"
  toaddr :: u64

record Finalizer =
  obj :: u64
  fn :: u64
  code :: u64
  fint :: u64
  ot :: u64

record Itab =
  addr :: u64
  ptr :: bool

record OSThread =
  addr :: u64
  id' :: u64
  procid :: u64

record GoRoutine =
  tos :: "nat option"
  ctxt :: "nat option"
  addr :: u64
  tosaddr :: u64
  goid :: u64
  gopc :: u64
  status :: u64
  issystem :: bool
  isbackground :: bool
  waitsince :: u64
  waitreason :: string
  ctxtaddr :: u64
  maddr :: u64

record StackFrame =
  name :: string
  parent :: "nat option"
  goroutine :: "nat option"
  depth :: u64
  addr :: u64
  parentaddr :: u64
  entry :: u64
  pc :: u64

text \<open>
  \<open>runtime.MemStats\<close> as far as the reader fills it: the 24 counters from \<open>Alloc\<close> to
  \<open>PauseTotalNs\<close> in the order they are read, the 256 entries of \<open>PauseNs\<close>, and \<open>NumGC\<close>.
\<close>

record MemStats =
  counters :: "u64 list"
  PauseNs :: "u64 list"
  NumGC :: "32 word"

record Dump =
  order :: "ByteOrder option"
  ptrSize :: u64
  hChanSize :: u64
  heapStart :: u64
  heapEnd :: u64
  thechar :: byte
  experiment' :: string
  ncpu :: u64
  types :: "Type list"
  objects :: "Object list"
  frames :: "StackFrame list"
  goroutines :: "GoRoutine list"
  stackroots :: "StackRoot list"
  dataroots :: "DataRoot list"
  otherroots :: "OtherRoot list"
  finalizers :: "Finalizer list"
  itabs :: "Itab list"
  osthreads :: "OSThread list"
  memstats :: "MemStats option"

text \<open>\<open>var d Dump\<close>: the zero value.\<close>

definition zeroDump :: Dump where
  "zeroDump = \<lparr>order = None, ptrSize = 0, hChanSize = 0, heapStart = 0, heapEnd = 0,
     thechar = 0, experiment' = [], ncpu = 0, types = [], objects = [], frames = [],
     goroutines = [], stackroots = [], dataroots = [], otherroots = [], finalizers = [],
     itabs = [], osthreads = [], memstats = None\<rparr>"

subsection \<open>Reading the stream\<close>

text \<open>
  A reader takes the bytes not yet read and gives a value and the bytes left, or the
  error that ends the program.
\<close>

type_synonym 'a reader = "byte list \<Rightarrow> error + ('a \<times> byte list)"

definition rreturn :: "'a \<Rightarrow> 'a reader" where
  "rreturn a bs = Inr (a, bs)"

definition rbind :: "'a reader \<Rightarrow> ('a \<Rightarrow> 'b reader) \<Rightarrow> 'b reader" where
  "rbind m f bs = (case m bs of Inl err \<Rightarrow> Inl err | Inr (a, bs') \<Rightarrow> f a bs')"

fun ReadByte :: "byte reader" where
  "ReadByte [] = Inl ReadFailed"
| "ReadByte (b # bs) = Inr (b, bs)"

text \<open>
  \<open>binary.ReadUvarint\<close> of the standard library: groups of seven bits, least significant
  first, the top bit of a byte saying that another byte follows; \<open>i\<close> counts the bytes
  read, \<open>x\<close> is the value so far and \<open>s\<close> the shift. A value that does not fit 64 bits
  is an error.
\<close>

fun ReadUvarint :: "nat \<Rightarrow> u64 \<Rightarrow> nat \<Rightarrow> u64 reader" where
  "ReadUvarint i x s [] = Inl ReadFailed"
| "ReadUvarint i x s (b # bs) =
     (if b < 0x80 then
        (if i > 9 \<or> (i = 9 \<and> b > 1) then Inl ReadFailed
         else Inr (x OR push_bit s (ucast b), bs))
      else ReadUvarint (Suc i) (x OR push_bit s (ucast (b AND 0x7f))) (s + 7) bs)"

definition readUint64 :: "u64 reader" where
  "readUint64 = ReadUvarint 0 0 0"

text \<open>
  \<open>make([]T, n)\<close> for elements of \<open>elemsize\<close> bytes, before \<open>fill\<close> reads the \<open>n\<close> elements:
  the run-time system panics when the slice would take more than \<open>maxAlloc\<close> bytes, its
  limit for one allocation (\<open>2^48\<close> on the 64-bit platforms; an \<open>n\<close> that is negative as an
  \<open>int\<close> is beyond it). An allocation within the limit is taken to succeed.
\<close>

definition maxAlloc :: int where
  "maxAlloc = 2 ^ 48"

definition makeslice :: "int \<Rightarrow> (nat \<Rightarrow> 'a reader) \<Rightarrow> u64 \<Rightarrow> 'a reader" where
  "makeslice elemsize fill n =
     (\<lambda>bs. if maxAlloc < elemsize * uint n then Inl Panic else fill (unat n) bs)"

text \<open>\<open>readNBytes\<close>: \<open>make([]byte, n)\<close>, then the loop, \<open>n\<close> times \<open>ReadByte\<close>.\<close>

primrec readBytes :: "nat \<Rightarrow> byte list reader" where
  "readBytes 0 = rreturn []"
| "readBytes (Suc n) = rbind ReadByte (\<lambda>b. rbind (readBytes n) (\<lambda>s. rreturn (b # s)))"

definition readNBytes :: "u64 \<Rightarrow> byte list reader" where
  "readNBytes n = makeslice 1 readBytes n"

text \<open>A Go string holds bytes; the model shows them as characters.\<close>

definition gostring :: "byte list \<Rightarrow> string" where
  "gostring s = map (\<lambda>b. char_of (unat b)) s"

definition gobytes :: "string \<Rightarrow> byte list" where
  "gobytes s = map (\<lambda>c. of_nat (of_char c)) s"

definition readString :: "string reader" where
  "readString = rbind readUint64 (\<lambda>n. rbind (readNBytes n) (\<lambda>s. rreturn (gostring s)))"

definition readBool :: "bool reader" where
  "readBool = rbind ReadByte (\<lambda>b. rreturn (b \<noteq> 0))"

text \<open>\<open>n\<close> varints in a row, for the fixed schedule of the memory statistics.\<close>

primrec readUint64s :: "nat \<Rightarrow> u64 list reader" where
  "readUint64s 0 = rreturn []"
| "readUint64s (Suc n) = rbind readUint64 (\<lambda>v. rbind (readUint64s n) (\<lambda>vs. rreturn (v # vs)))"

text \<open>The bodies of the records, field by field in the order of the source.\<close>

definition readObject :: "Object reader" where
  "readObject =
     rbind readUint64 (\<lambda>a. rbind readUint64 (\<lambda>ta. rbind readUint64 (\<lambda>k.
     rbind readUint64 (\<lambda>sz. rbind (readNBytes sz) (\<lambda>dat.
     rreturn \<lparr>typ' = None, Object.kind = k, data = dat, edges = [], Object.addr = a, typaddr = ta\<rparr>)))))"

definition readStackRoot :: "StackRoot reader" where
  "readStackRoot =
     rbind readUint64 (\<lambda>fa. rbind readUint64 (\<lambda>ta. rbind readUint64 (\<lambda>fr. rbind readUint64 (\<lambda>dp.
     rreturn \<lparr>frame = None, StackRoot.e' = None, StackRoot.fromaddr = fa, StackRoot.toaddr = ta,
       frameaddr = fr, StackRoot.depth = dp\<rparr>))))"

definition readDataRoot :: "DataRoot reader" where
  "readDataRoot =
     rbind readUint64 (\<lambda>fa. rbind readUint64 (\<lambda>ta.
     rreturn \<lparr>DataRoot.name = [], DataRoot.e' = None, DataRoot.fromaddr = fa, DataRoot.toaddr = ta\<rparr>))"

definition readOtherRoot :: "OtherRoot reader" where
  "readOtherRoot =
     rbind readString (\<lambda>ds. rbind readUint64 (\<lambda>ta.
     rreturn \<lparr>description = ds, OtherRoot.e' = None, OtherRoot.toaddr = ta\<rparr>))"

text \<open>
  The fields of a type: \<open>typ.fields = make([]Field, nptr)\<close>, a \<open>Field\<close> taking 16 bytes,
  then the loop that reads \<open>kind\<close> and \<open>offset\<close> of each field.
\<close>

primrec readFields :: "nat \<Rightarrow> Field list reader" where
  "readFields 0 = rreturn []"
| "readFields (Suc n) =
     rbind readUint64 (\<lambda>k. rbind readUint64 (\<lambda>off. rbind (readFields n) (\<lambda>fs.
     rreturn (\<lparr>Field.kind = k, offset = off\<rparr> # fs))))"

definition readType :: "Type reader" where
  "readType =
     rbind readUint64 (\<lambda>a. rbind readUint64 (\<lambda>sz. rbind readString (\<lambda>nm. rbind readBool (\<lambda>ep.
     rbind readUint64 (\<lambda>nptr. rbind (makeslice 16 readFields nptr) (\<lambda>fs.
     rreturn \<lparr>Type.name = nm, size' = sz, efaceptr = ep, fields' = fs, Type.addr = a\<rparr>))))))"

definition readGoRoutine :: "GoRoutine reader" where
  "readGoRoutine =
     rbind readUint64 (\<lambda>a. rbind readUint64 (\<lambda>ta. rbind readUint64 (\<lambda>gi. rbind readUint64 (\<lambda>pc.
     rbind readUint64 (\<lambda>st. rbind readBool (\<lambda>sy. rbind readBool (\<lambda>bg. rbind readUint64 (\<lambda>ws.
     rbind readString (\<lambda>wr. rbind readUint64 (\<lambda>ca. rbind readUint64 (\<lambda>ma.
     rreturn \<lparr>tos = None, ctxt = None, GoRoutine.addr = a, tosaddr = ta, goid = gi, gopc = pc,
       status = st, issystem = sy, isbackground = bg, waitsince = ws, waitreason = wr,
       ctxtaddr = ca, maddr = ma\<rparr>)))))))))))"

definition readStackFrame :: "StackFrame reader" where
  "readStackFrame =
     rbind readUint64 (\<lambda>a. rbind readUint64 (\<lambda>dp. rbind readUint64 (\<lambda>pa. rbind readUint64 (\<lambda>en.
     rbind readUint64 (\<lambda>p. rbind readString (\<lambda>nm. rbind readString (\<lambda>raw.
     rreturn \<lparr>StackFrame.name = nm, parent = None, goroutine = None, StackFrame.depth = dp,
       StackFrame.addr = a,
       parentaddr = pa, entry = en, pc = p\<rparr>)))))))"

definition readParams :: "Dump \<Rightarrow> Dump reader" where
  "readParams d =
     rbind readUint64 (\<lambda>ord. rbind readUint64 (\<lambda>ps. rbind readUint64 (\<lambda>hc. rbind readUint64 (\<lambda>hs.
     rbind readUint64 (\<lambda>he. rbind readUint64 (\<lambda>tc. rbind readString (\<lambda>ex. rbind readUint64 (\<lambda>nc.
     rreturn (d\<lparr>order := Some (if ord = 0 then LittleEndian else BigEndian), ptrSize := ps,
       hChanSize := hc, heapStart := hs, heapEnd := he, thechar := ucast tc,
       experiment' := ex, ncpu := nc\<rparr>)))))))))"

definition readFinalizer :: "Finalizer reader" where
  "readFinalizer =
     rbind readUint64 (\<lambda>ob. rbind readUint64 (\<lambda>f. rbind readUint64 (\<lambda>c. rbind readUint64 (\<lambda>fi.
     rbind readUint64 (\<lambda>o'. rreturn \<lparr>obj = ob, fn = f, code = c, fint = fi, ot = o'\<rparr>)))))"

definition readItab :: "Itab reader" where
  "readItab = rbind readUint64 (\<lambda>a. rbind readBool (\<lambda>p. rreturn \<lparr>Itab.addr = a, ptr = p\<rparr>))"

definition readOSThread :: "OSThread reader" where
  "readOSThread =
     rbind readUint64 (\<lambda>a. rbind readUint64 (\<lambda>i. rbind readUint64 (\<lambda>p.
     rreturn \<lparr>OSThread.addr = a, id' = i, procid = p\<rparr>)))"

definition readMemStats :: "MemStats reader" where
  "readMemStats =
     rbind (readUint64s 24) (\<lambda>cs. rbind (readUint64s 256) (\<lambda>ps. rbind readUint64 (\<lambda>n.
     rreturn \<lparr>counters = cs, PauseNs = ps, NumGC = ucast n\<rparr>)))"

text \<open>
  The \<open>switch kind\<close> of \<open>rawRead\<close> for every tag but \<open>tagEOF\<close>: read the body and store
  the entity. The cases \<open>tagOSThread\<close> and \<open>tagMemStats\<close> read their fields into a
  fresh \<open>t\<close> and store \<open>t\<close> nowhere.
\<close>

definition readRecord :: "u64 \<Rightarrow> Dump \<Rightarrow> Dump reader" where
  "readRecord tag d =
     (if tag = tagObject then rbind readObject (\<lambda>x. rreturn (d\<lparr>Dump.objects := Dump.objects d @ [x]\<rparr>))
      else if tag = tagStackRoot then rbind readStackRoot (\<lambda>t. rreturn (d\<lparr>stackroots := stackroots d @ [t]\<rparr>))
      else if tag = tagDataRoot then rbind readDataRoot (\<lambda>t. rreturn (d\<lparr>dataroots := dataroots d @ [t]\<rparr>))
      else if tag = tagOtherRoot then rbind readOtherRoot (\<lambda>t. rreturn (d\<lparr>otherroots := otherroots d @ [t]\<rparr>))
      else if tag = tagType then rbind readType (\<lambda>t. rreturn (d\<lparr>types := types d @ [t]\<rparr>))
      else if tag = tagGoRoutine then rbind readGoRoutine (\<lambda>g. rreturn (d\<lparr>goroutines := goroutines d @ [g]\<rparr>))
      else if tag = tagStackFrame then rbind readStackFrame (\<lambda>t. rreturn (d\<lparr>frames := frames d @ [t]\<rparr>))
      else if tag = tagParams then readParams d
      else if tag = tagFinalizer then rbind readFinalizer (\<lambda>t. rreturn (d\<lparr>finalizers := finalizers d @ [t]\<rparr>))
      else if tag = tagItab then rbind readItab (\<lambda>t. rreturn (d\<lparr>itabs := itabs d @ [t]\<rparr>))
      else if tag = tagOSThread then rbind readOSThread (\<lambda>t. rreturn d)
      else if tag = tagMemStats then rbind readMemStats (\<lambda>t. rreturn d)
      else (\<lambda>bs. Inl (Fatal (''unknown record kind %d'' @ decimal (unat tag)))))"

text \<open>A reader never gives back more bytes than it was given.\<close>

definition shrinks :: "'a reader \<Rightarrow> bool" where
  "shrinks m = (\<forall>bs a bs'. m bs = Inr (a, bs') \<longrightarrow> length bs' \<le> length bs)"

lemma shrinks_rreturn: "shrinks (rreturn a)"
  by (simp add: shrinks_def rreturn_def)

lemma shrinks_rbind: "shrinks m \<Longrightarrow> (\<And>a. shrinks (f a)) \<Longrightarrow> shrinks (rbind m f)"
  unfolding shrinks_def rbind_def
  by (fastforce split: sum.splits)

lemma shrinks_ReadByte: "shrinks ReadByte"
  unfolding shrinks_def
proof (intro allI impI)
  fix bs a bs' assume "ReadByte bs = Inr (a, bs')"
  then show "length bs' \<le> length bs" by (cases bs) auto
qed

lemma ReadUvarint_less: "ReadUvarint i x s bs = Inr (v, bs') \<Longrightarrow> length bs' < length bs"
  by (induction i x s bs rule: ReadUvarint.induct) (auto split: if_splits)

lemma readUint64_less: "readUint64 bs = Inr (v, bs') \<Longrightarrow> length bs' < length bs"
  unfolding readUint64_def by (rule ReadUvarint_less)

lemma shrinks_readUint64: "shrinks readUint64"
  unfolding shrinks_def using readUint64_less by (auto intro: less_imp_le)

lemma shrinks_readBytes: "shrinks (readBytes n)"
  by (induction n) (auto intro!: shrinks_rbind shrinks_rreturn shrinks_ReadByte)

lemma shrinks_makeslice: "(\<And>k. shrinks (fill k)) \<Longrightarrow> shrinks (makeslice elemsize fill n)"
  unfolding shrinks_def makeslice_def by (auto split: if_splits)

lemma shrinks_readNBytes: "shrinks (readNBytes n)"
  by (simp add: readNBytes_def shrinks_makeslice shrinks_readBytes)

lemma shrinks_readString: "shrinks readString"
  unfolding readString_def
  by (intro shrinks_rbind shrinks_rreturn shrinks_readUint64 shrinks_readNBytes)

lemma shrinks_readBool: "shrinks readBool"
  unfolding readBool_def by (intro shrinks_rbind shrinks_rreturn shrinks_ReadByte)

lemma shrinks_readUint64s: "shrinks (readUint64s n)"
  by (induction n) (auto intro!: shrinks_rbind shrinks_rreturn shrinks_readUint64)

lemma shrinks_readFields: "shrinks (readFields n)"
  by (induction n) (auto intro!: shrinks_rbind shrinks_rreturn shrinks_readUint64)

lemmas shrinks_intros =
  shrinks_rbind shrinks_rreturn shrinks_readUint64 shrinks_readNBytes shrinks_readString
  shrinks_readBool shrinks_readUint64s shrinks_makeslice shrinks_readFields

lemma shrinks_records:
  "shrinks readObject" "shrinks readStackRoot" "shrinks readDataRoot" "shrinks readOtherRoot"
  "shrinks readType" "shrinks readGoRoutine" "shrinks readStackFrame" "shrinks (readParams d)"
  "shrinks readFinalizer" "shrinks readItab" "shrinks readOSThread" "shrinks readMemStats"
  unfolding readObject_def readStackRoot_def readDataRoot_def readOtherRoot_def
    readType_def readGoRoutine_def readStackFrame_def readParams_def readFinalizer_def
    readItab_def readOSThread_def readMemStats_def
  by (intro shrinks_intros)+

lemma shrinks_readRecord: "shrinks (readRecord tag d)"
proof -
  have "shrinks (\<lambda>bs. Inl (Fatal msg) :: error + Dump \<times> byte list)" for msg
    by (simp add: shrinks_def)
  then show ?thesis
    unfolding readRecord_def
    by (auto intro!: shrinks_rbind shrinks_rreturn shrinks_records)
qed

text \<open>
  The loop \<open>for { kind := readUint64(r); switch kind { ... } }\<close>: \<open>tagEOF\<close> returns the
  dump, every other tag reads its record and goes round again.
\<close>

function rawReadLoop :: "Dump \<Rightarrow> byte list \<Rightarrow> error + Dump" where
  "rawReadLoop d bs =
     (case readUint64 bs of
        Inl err \<Rightarrow> Inl err
      | Inr (tag, bs1) \<Rightarrow>
          if tag = tagEOF then Inr d
          else (case readRecord tag d bs1 of
                  Inl err \<Rightarrow> Inl err
                | Inr (d', bs2) \<Rightarrow> rawReadLoop d' bs2))"
  by pat_completeness auto
termination
proof (relation "measure (\<lambda>(d, bs). length bs)")
  show "wf (measure (\<lambda>(d, bs). length bs))" by simp
next
  fix d :: Dump and bs x2 tag bs1 x2a d' bs2
  assume "readUint64 bs = Inr x2" "(tag, bs1) = x2" "tag \<noteq> tagEOF"
    "readRecord tag d bs1 = Inr x2a" "(d', bs2) = x2a"
  then have "length bs1 < length bs" "length bs2 \<le> length bs1"
    using readUint64_less[of bs tag bs1] shrinks_readRecord[of tag d]
    by (auto simp: shrinks_def)
  then show "((d', bs2), (d, bs)) \<in> measure (\<lambda>(d, bs). length bs)" by simp
qed

text \<open>
  \<open>bufio.Reader.ReadLine\<close> of the standard library on a reader with the default buffer of
  4096 bytes: the line without its end (\<open>\n\<close> or \<open>\r\n\<close>), the flag \<open>isPrefix\<close> when
  the buffer filled up before the line ended, and an error when nothing is left to read.
\<close>

definition ReadLine :: "(byte list \<times> bool) reader" where
  "ReadLine bs =
     (if bs = [] then Inl ReadFailed
      else if 10 \<in> set (take 4096 bs) then
        (let line = takeWhile (\<lambda>b. b \<noteq> 10) bs;
             rest = drop (length line + 1) bs
         in Inr ((if line \<noteq> [] \<and> last line = 13 then butlast line else line, False), rest))
      else if 4096 \<le> length bs then Inr ((take 4096 bs, True), drop 4096 bs)
      else Inr ((bs, False), []))"

text \<open>
  \<open>rawRead\<close> on the contents of the file: the header line, then the records. (Opening
  the file is outside the model.)
\<close>

definition rawRead :: "byte list \<Rightarrow> error + Dump" where
  "rawRead file =
     (case ReadLine file of
        Inl err \<Rightarrow> Inl err
      | Inr ((hdr, prefix), bs) \<Rightarrow>
          if prefix \<or> gostring hdr \<noteq> ''go1.3 heap dump''
          then Inl (Fatal ''not a go1.3 heap dump file'')
          else rawReadLoop zeroDump bs)"

declare rawReadLoop.simps [simp del]

text \<open>What every value a reader can give satisfies.\<close>

definition yields :: "('a \<Rightarrow> bool) \<Rightarrow> 'a reader \<Rightarrow> bool" where
  "yields P m = (\<forall>bs a bs'. m bs = Inr (a, bs') \<longrightarrow> P a)"

subsection \<open>Decoding pointers\<close>

text \<open>\<open>b[off:]\<close>: the slice from \<open>off\<close>, a panic when \<open>off\<close> is beyond the length.\<close>

definition sliceFrom :: "byte list \<Rightarrow> u64 \<Rightarrow> error + byte list" where
  "sliceFrom b off = (if unat off \<le> length b then Inr (drop (unat off) b) else Inl Panic)"

text \<open>\<open>uint64(b[i]) << s\<close>.\<close>

definition byteAt :: "byte list \<Rightarrow> nat \<Rightarrow> nat \<Rightarrow> u64" where
  "byteAt b i s = push_bit s (ucast (b ! i))"

text \<open>
  \<open>readPtr\<close>: the four supported cases read 4 or 8 bytes of \<open>b\<close>, and an index beyond
  \<open>len(b)\<close> panics; any other order or pointer size is fatal.
\<close>

definition readPtr :: "Dump \<Rightarrow> byte list \<Rightarrow> error + u64" where
  "readPtr d b =
     (if order d = Some LittleEndian \<and> ptrSize d = 4 then
        (if length b < 4 then Inl Panic
         else Inr (byteAt b 0 0 + byteAt b 1 8 + byteAt b 2 16 + byteAt b 3 24))
      else if order d = Some BigEndian \<and> ptrSize d = 4 then
        (if length b < 4 then Inl Panic
         else Inr (byteAt b 3 0 + byteAt b 2 8 + byteAt b 1 16 + byteAt b 0 24))
      else if order d = Some LittleEndian \<and> ptrSize d = 8 then
        (if length b < 8 then Inl Panic
         else Inr (byteAt b 0 0 + byteAt b 1 8 + byteAt b 2 16 + byteAt b 3 24
                 + byteAt b 4 32 + byteAt b 5 40 + byteAt b 6 48 + byteAt b 7 56))
      else if order d = Some BigEndian \<and> ptrSize d = 8 then
        (if length b < 8 then Inl Panic
         else Inr (byteAt b 7 0 + byteAt b 6 8 + byteAt b 5 16 + byteAt b 4 24
                 + byteAt b 3 32 + byteAt b 2 40 + byteAt b 1 48 + byteAt b 0 56))
      else Inl (Fatal (''unsupported order=%v ptrSize=%d'' @ orderString (order d) @ '' '' @
                       decimal (unat (ptrSize d)))))"

text \<open>\<open>readPtr(info.dump, x.data[off:])\<close>.\<close>

definition readPtrAt :: "Dump \<Rightarrow> byte list \<Rightarrow> u64 \<Rightarrow> error + u64" where
  "readPtrAt d b off = (case sliceFrom b off of Inl err \<Rightarrow> Inl err | Inr b' \<Rightarrow> readPtr d b')"

subsection \<open>Binary search\<close>

text \<open>
  \<open>sort.Search(n, f)\<close> of the standard library is \<open>Search 0 n f\<close>: the loop keeps
  \<open>i \<le> j\<close>, halves the range and returns \<open>i\<close>.
\<close>

function Search :: "nat \<Rightarrow> nat \<Rightarrow> (nat \<Rightarrow> bool) \<Rightarrow> nat" where
  "Search i j f =
     (if i < j then
        (let h = (i + j) div 2 in
         if \<not> f h then Search (h + 1) j f else Search i h f)
      else i)"
  by pat_completeness auto
termination
  by (relation "measure (\<lambda>(i, j, f). j - i)") auto

declare Search.simps [simp del]

text \<open>
  \<open>Heap.find\<close>. The heap \<open>h\<close> lists the objects (their indices in the store \<open>objs\<close>) in
  the order \<open>sort.Sort\<close> left them in. The sum \<open>addr + len(data)\<close> is a 64-bit sum.
\<close>

definition Heap_find :: "Object list \<Rightarrow> nat list \<Rightarrow> u64 \<Rightarrow> nat option" where
  "Heap_find objs h p =
     (let j = Search 0 (length h)
                (\<lambda>i. p < Object.addr (objs ! (h ! i)) + of_nat (length (data (objs ! (h ! i)))))
      in if j < length h \<and> Object.addr (objs ! (h ! j)) \<le> p then Some (h ! j) else None)"

record Global =
  name :: string
  addr :: u64

definition Globals_find :: "Global list \<Rightarrow> u64 \<Rightarrow> Global" where
  "Globals_find g p =
     (let j = Search 0 (length g) (\<lambda>i. p < Global.addr (g ! i))
      in if j = 0 then \<lparr>Global.name = ''unknown global'', Global.addr = 0\<rparr> else g ! (j - 1))"

subsection \<open>Linking\<close>

text \<open>
  The maps of \<open>LinkInfo\<close>. Its field \<open>dump\<close> points to the dump being linked; the model
  passes that dump (for \<open>order\<close> and \<open>ptrSize\<close>) and the store of its objects along
  instead. A frame is identified by \<open>frameId{sp, depth}\<close>, a pair.
\<close>

record LinkInfo =
  types :: "u64 \<rightharpoonup> Type"
  itabs :: "u64 \<rightharpoonup> Itab"
  frames :: "u64 \<times> u64 \<rightharpoonup> nat"
  globals :: "Global list"
  heap :: "nat list"

text \<open>\<open>x.edges = append(x.edges, e)\<close> on the object that the pointer \<open>x\<close> refers to.\<close>

definition appendEdge :: "Object list \<Rightarrow> nat \<Rightarrow> Edge \<Rightarrow> Object list" where
  "appendEdge objs x e = objs[x := (objs ! x)\<lparr>edges := edges (objs ! x) @ [e]\<rparr>]"

definition linkPtr :: "LinkInfo \<Rightarrow> Dump \<Rightarrow> Object list \<Rightarrow> nat \<Rightarrow> u64 \<Rightarrow> error + Object list" where
  "linkPtr info d objs x off =
     (case readPtrAt d (data (objs ! x)) off of
        Inl err \<Rightarrow> Inl err
      | Inr p \<Rightarrow>
          (case Heap_find objs (heap info) p of
             None \<Rightarrow> Inr objs
           | Some q \<Rightarrow>
               Inr (appendEdge objs x
                      \<lparr>to = q, fromoffset = off, tooffset = p - Object.addr (objs ! q)\<rparr>)))"

text \<open>The body of the loop of \<open>linkFields\<close>: one field \<open>f\<close> of a pass at the
  offset \<open>base\<close> (the parameter \<open>offset\<close> of the source).\<close>

definition linkField :: "LinkInfo \<Rightarrow> Dump \<Rightarrow> Object list \<Rightarrow> nat \<Rightarrow> u64 \<Rightarrow> Field \<Rightarrow> error + Object list" where
  "linkField info d objs x base f =
     (let off = base + Field.offset f in
      if Field.kind f = fieldKindPtr then linkPtr info d objs x off
      else if Field.kind f = fieldKindString then linkPtr info d objs x off
      else if Field.kind f = fieldKindSlice then linkPtr info d objs x off
      else if Field.kind f = fieldKindEface then
        (case linkPtr info d objs x off of
           Inl err \<Rightarrow> Inl err
         | Inr objs1 \<Rightarrow>
             (case readPtrAt d (data (objs1 ! x)) off of
                Inl err \<Rightarrow> Inl err
              | Inr tp \<Rightarrow>
                  if tp \<noteq> 0 then
                    (case LinkInfo.types info tp of
                       None \<Rightarrow> Inl (Fatal ''can't find eface type'')
                     | Some t \<Rightarrow>
                         if efaceptr t then linkPtr info d objs1 x (off + ptrSize d)
                         else Inr objs1)
                  else Inr objs1))
      else if Field.kind f = fieldKindIface then
        (case readPtrAt d (data (objs ! x)) off of
           Inl err \<Rightarrow> Inl err
         | Inr tp \<Rightarrow>
             if tp \<noteq> 0 then
               (case LinkInfo.itabs info tp of
                  None \<Rightarrow> Inl (Fatal ''can't find iface tab'')
                | Some t \<Rightarrow>
                    if ptr t then linkPtr info d objs x (off + ptrSize d)
                    else Inr objs)
             else Inr objs)
      else Inr objs)"

fun linkFields :: "LinkInfo \<Rightarrow> Dump \<Rightarrow> Object list \<Rightarrow> nat \<Rightarrow> Field list \<Rightarrow> u64 \<Rightarrow> error + Object list" where
  "linkFields info d objs x [] base = Inr objs"
| "linkFields info d objs x (f # fs) base =
     (case linkField info d objs x base f of
        Inl err \<Rightarrow> Inl err
      | Inr objs' \<Rightarrow> linkFields info d objs' x fs base)"

text \<open>
  The loops \<open>for i := start; i <= uint64(len(x.data))-t.size; i += t.size\<close> of the array
  and channel cases, with \<open>limit\<close> the 64-bit difference. Nothing bounds the number of
  passes (a type of size 0 never leaves the loop), so not returning is \<open>None\<close>.
\<close>

partial_function (option) linkPasses ::
  "LinkInfo \<Rightarrow> Dump \<Rightarrow> nat \<Rightarrow> Field list \<Rightarrow> u64 \<Rightarrow> u64 \<Rightarrow> Object list \<Rightarrow> u64 \<Rightarrow> (error + Object list) option" where
  "linkPasses info d x fs sz limit objs i =
     (if i \<le> limit then
        (case linkFields info d objs x fs i of
           Inl err \<Rightarrow> Some (Inl err)
         | Inr objs' \<Rightarrow> linkPasses info d x fs sz limit objs' (i + sz))
      else Some (Inr objs))"

declare linkPasses.simps [code]

text \<open>The body of the loop \<open>link objects to each other\<close> for the object \<open>x\<close>.\<close>

definition linkObject :: "LinkInfo \<Rightarrow> Dump \<Rightarrow> Object list \<Rightarrow> nat \<Rightarrow> (error + Object list) option" where
  "linkObject info d objs x =
     (case typ' (objs ! x) of
        None \<Rightarrow> Some (Inr objs)
      | Some t \<Rightarrow>
          if Object.kind (objs ! x) = typeKindObject then Some (linkFields info d objs x (fields' t) 0)
          else if Object.kind (objs ! x) = typeKindArray then
            linkPasses info d x (fields' t) (size' t)
              (of_nat (length (data (objs ! x))) - size' t) objs 0
          else if Object.kind (objs ! x) = typeKindChan then
            linkPasses info d x (fields' t) (size' t)
              (of_nat (length (data (objs ! x))) - size' t) objs (hChanSize d)
          else Some (Inr objs))"

fun linkObjects :: "LinkInfo \<Rightarrow> Dump \<Rightarrow> Object list \<Rightarrow> nat list \<Rightarrow> (error + Object list) option" where
  "linkObjects info d objs [] = Some (Inr objs)"
| "linkObjects info d objs (x # xs) =
     (case linkObject info d objs x of
        None \<Rightarrow> None
      | Some (Inl err) \<Rightarrow> Some (Inl err)
      | Some (Inr objs') \<Rightarrow> linkObjects info d objs' xs)"

text \<open>
  Finalizers: \<open>x\<close> is the object found for \<open>f.obj\<close>, \<open>y\<close> the one found for the target
  \<open>addr\<close>; the edge appended to \<open>x\<close> is \<open>Edge{x, 0, addr - y.addr}\<close>.
\<close>

definition linkFinalizerTarget :: "LinkInfo \<Rightarrow> nat option \<Rightarrow> Object list \<Rightarrow> u64 \<Rightarrow> Object list" where
  "linkFinalizerTarget info x objs a =
     (case Heap_find objs (heap info) a of
        None \<Rightarrow> objs
      | Some y \<Rightarrow>
          (case x of
             None \<Rightarrow> objs
           | Some xi \<Rightarrow>
               appendEdge objs xi \<lparr>to = xi, fromoffset = 0, tooffset = a - Object.addr (objs ! y)\<rparr>))"

definition linkFinalizer :: "LinkInfo \<Rightarrow> Object list \<Rightarrow> Finalizer \<Rightarrow> Object list" where
  "linkFinalizer info objs f =
     (let x = Heap_find objs (heap info) (obj f)
      in foldl (linkFinalizerTarget info x) objs [fn f, fint f, ot f])"

definition linkFinalizers :: "LinkInfo \<Rightarrow> Object list \<Rightarrow> Finalizer list \<Rightarrow> Object list" where
  "linkFinalizers info objs fs = foldl (linkFinalizer info) objs fs"

text \<open>
  The maps built at the start of \<open>link\<close>; a later record with the same key replaces an
  earlier one.
\<close>

definition typesMap :: "Type list \<Rightarrow> (u64 \<rightharpoonup> Type)" where
  "typesMap ts = foldl (\<lambda>m x. m(Type.addr x \<mapsto> x)) Map.empty ts"

definition itabsMap :: "Itab list \<Rightarrow> (u64 \<rightharpoonup> Itab)" where
  "itabsMap ts = foldl (\<lambda>m x. m(Itab.addr x \<mapsto> x)) Map.empty ts"

definition framesMap :: "StackFrame list \<Rightarrow> (u64 \<times> u64 \<rightharpoonup> nat)" where
  "framesMap fs =
     foldl (\<lambda>m i. m((StackFrame.addr (fs ! i), StackFrame.depth (fs ! i)) \<mapsto> i)) Map.empty [0..<length fs]"

text \<open>Link objects to types: a zero \<open>typaddr\<close> is no type, a missing type is fatal.\<close>

fun linkTypes :: "(u64 \<rightharpoonup> Type) \<Rightarrow> Object list \<Rightarrow> error + Object list" where
  "linkTypes tm [] = Inr []"
| "linkTypes tm (x # xs) =
     (if typaddr x = 0 then
        (case linkTypes tm xs of
           Inl err \<Rightarrow> Inl err
         | Inr xs' \<Rightarrow> Inr (x\<lparr>typ' := None\<rparr> # xs'))
      else
        (case tm (typaddr x) of
           None \<Rightarrow> Inl (Fatal ''type is missing'')
         | Some t \<Rightarrow>
             (case linkTypes tm xs of
                Inl err \<Rightarrow> Inl err
              | Inr xs' \<Rightarrow> Inr (x\<lparr>typ' := Some t\<rparr> # xs'))))"

text \<open>Link up frames in sequence: a parent that is not found is \<open>nil\<close>.\<close>

definition linkParents :: "(u64 \<times> u64 \<rightharpoonup> nat) \<Rightarrow> StackFrame list \<Rightarrow> StackFrame list" where
  "linkParents fm fs = map (\<lambda>f. f\<lparr>parent := fm (parentaddr f, StackFrame.depth f + 1)\<rparr>) fs"

text \<open>
  \<open>for f := g.tos; f != nil; f = f.parent { f.goroutine = g }\<close>, for the goroutine with
  index \<open>g\<close>. The chain of parents is followed as long as it goes on.
\<close>

partial_function (option) markFrames :: "nat \<Rightarrow> StackFrame list \<Rightarrow> nat option \<Rightarrow> StackFrame list option" where
  "markFrames g fs f =
     (case f of
        None \<Rightarrow> Some fs
      | Some fi \<Rightarrow> markFrames g (fs[fi := (fs ! fi)\<lparr>goroutine := Some g\<rparr>]) (parent (fs ! fi)))"

declare markFrames.simps [code]

definition linkGoroutine ::
  "LinkInfo \<Rightarrow> Object list \<Rightarrow> StackFrame list \<times> GoRoutine list \<Rightarrow> nat
    \<Rightarrow> (error + StackFrame list \<times> GoRoutine list) option" where
  "linkGoroutine info objs st gi =
     (let fs = fst st; gs = snd st; g = gs ! gi in
      case LinkInfo.frames info (tosaddr g, 0) of
        None \<Rightarrow> Some (Inl (Fatal ''tos missing''))
      | Some t \<Rightarrow>
          (case markFrames gi fs (Some t) of
             None \<Rightarrow> None
           | Some fs' \<Rightarrow>
               Some (Inr (fs', gs[gi := g\<lparr>tos := Some t,
                 ctxt := (case Heap_find objs (heap info) (ctxtaddr g) of
                            None \<Rightarrow> ctxt g
                          | Some x \<Rightarrow> Some x)\<rparr>]))))"

fun linkGoroutines ::
  "LinkInfo \<Rightarrow> Object list \<Rightarrow> StackFrame list \<times> GoRoutine list \<Rightarrow> nat list
    \<Rightarrow> (error + StackFrame list \<times> GoRoutine list) option" where
  "linkGoroutines info objs st [] = Some (Inr st)"
| "linkGoroutines info objs st (gi # gis) =
     (case linkGoroutine info objs st gi of
        None \<Rightarrow> None
      | Some (Inl err) \<Rightarrow> Some (Inl err)
      | Some (Inr st') \<Rightarrow> linkGoroutines info objs st' gis)"

text \<open>Link up roots to objects: a root whose target is not found keeps its zero edge.\<close>

definition rootEdge :: "LinkInfo \<Rightarrow> Object list \<Rightarrow> u64 \<Rightarrow> u64 \<Rightarrow> Edge option \<Rightarrow> Edge option" where
  "rootEdge info objs from target old =
     (case Heap_find objs (heap info) target of
        None \<Rightarrow> old
      | Some x \<Rightarrow> Some \<lparr>to = x, fromoffset = from, tooffset = target - Object.addr (objs ! x)\<rparr>)"

definition linkStackRoot :: "LinkInfo \<Rightarrow> Object list \<Rightarrow> StackRoot \<Rightarrow> StackRoot" where
  "linkStackRoot info objs r =
     r\<lparr>frame := LinkInfo.frames info (frameaddr r, StackRoot.depth r),
       StackRoot.e' := rootEdge info objs (StackRoot.fromaddr r - frameaddr r)
                         (StackRoot.toaddr r) (StackRoot.e' r)\<rparr>"

definition linkDataRoot :: "LinkInfo \<Rightarrow> Object list \<Rightarrow> DataRoot \<Rightarrow> DataRoot" where
  "linkDataRoot info objs r =
     (let g = Globals_find (globals info) (DataRoot.fromaddr r) in
      r\<lparr>DataRoot.name := Global.name g,
        DataRoot.e' := rootEdge info objs (DataRoot.fromaddr r - Global.addr g)
                         (DataRoot.toaddr r) (DataRoot.e' r)\<rparr>)"

definition linkOtherRoot :: "LinkInfo \<Rightarrow> Object list \<Rightarrow> OtherRoot \<Rightarrow> OtherRoot" where
  "linkOtherRoot info objs r =
     r\<lparr>OtherRoot.e' := rootEdge info objs 0 (OtherRoot.toaddr r) (OtherRoot.e' r)\<rparr>"

text \<open>
  \<open>link\<close>. Two things come from outside: \<open>g\<close>, the sorted table of globals that
  \<open>globalMap\<close> reads from the executable, and \<open>h\<close>, the heap as \<open>sort.Sort\<close> leaves it
  (the objects of the dump ordered by address; the sort is not stable, so the order of
  objects with equal addresses is not determined by the dump). \<open>None\<close> means that \<open>link\<close>
  does not return.
\<close>

definition linkInfo :: "nat list \<Rightarrow> Global list \<Rightarrow> Dump \<Rightarrow> LinkInfo" where
  "linkInfo h g d =
     \<lparr>LinkInfo.types = typesMap (Dump.types d), LinkInfo.itabs = itabsMap (Dump.itabs d),
      LinkInfo.frames = framesMap (Dump.frames d), globals = g, heap = h\<rparr>"

definition link :: "nat list \<Rightarrow> Global list \<Rightarrow> Dump \<Rightarrow> (error + Dump) option" where
  "link h g d =
     (let info = linkInfo h g d in
      case linkTypes (LinkInfo.types info) (Dump.objects d) of
        Inl err \<Rightarrow> Some (Inl err)
      | Inr objs1 \<Rightarrow>
          (case linkGoroutines info objs1
                  (linkParents (LinkInfo.frames info) (Dump.frames d), goroutines d)
                  [0..<length (goroutines d)] of
             None \<Rightarrow> None
           | Some (Inl err) \<Rightarrow> Some (Inl err)
           | Some (Inr st) \<Rightarrow>
               (case linkObjects info d objs1 [0..<length objs1] of
                  None \<Rightarrow> None
                | Some (Inl err) \<Rightarrow> Some (Inl err)
                | Some (Inr objs2) \<Rightarrow>
                    Some (Inr (d\<lparr>Dump.objects := linkFinalizers info objs2 (finalizers d),
                      Dump.frames := fst st, goroutines := snd st,
                      stackroots := map (linkStackRoot info objs1) (stackroots d),
                      dataroots := map (linkDataRoot info objs1) (dataroots d),
                      otherroots := map (linkOtherRoot info objs1) (otherroots d)\<rparr>)))))"

text \<open>What \<open>sort.Sort(info.heap)\<close> guarantees of \<open>h\<close>: the objects, each once, by address.\<close>

definition sortedHeap :: "Object list \<Rightarrow> nat list \<Rightarrow> bool" where
  "sortedHeap objs h =
     (distinct h \<and> set h = {0..<length objs} \<and>
      sorted_wrt (\<lambda>i j. Object.addr (objs ! i) \<le> Object.addr (objs ! j)) h)"

text \<open>\<open>Read\<close> on the contents of the dump file.\<close>

definition Read :: "nat list \<Rightarrow> Global list \<Rightarrow> byte list \<Rightarrow> (error + Dump) option" where
  "Read h g file = (case rawRead file of Inl err \<Rightarrow> Some (Inl err) | Inr d \<Rightarrow> link h g d)"

subsection \<open>Auxiliary notions and example dumps\<close>

text \<open>The store \<open>objs\<close> after the edges \<open>es\<close> were appended to the object \<open>x\<close>.\<close>

definition addEdges :: "Object list \<Rightarrow> nat \<Rightarrow> Edge list \<Rightarrow> Object list" where
  "addEdges objs x es = objs[x := (objs ! x)\<lparr>edges := edges (objs ! x) @ es\<rparr>]"

text \<open>
  A dump with a finalizer: the object \<open>X\<close> at \<open>0x1000\<close> (8 bytes) is finalized, and the
  function of the finalizer lies at \<open>0x200c\<close>, inside the object \<open>Y\<close> at \<open>0x2000\<close>
  (16 bytes). Little-endian, 8-byte pointers, no types.
\<close>

definition finalizer_dump :: Dump where
  "finalizer_dump = zeroDump
     \<lparr>order := Some LittleEndian, ptrSize := 8,
      Dump.objects :=
        [\<lparr>typ' = None, Object.kind = 0, data = [0, 0, 0, 0, 0, 0, 0, 0], edges = [],
          Object.addr = 0x1000, typaddr = 0\<rparr>,
         \<lparr>typ' = None, Object.kind = 0, data = [0, 0, 0, 0, 0, 0, 0, 0, 0, 0, 0, 0, 0, 0, 0, 0],
          edges = [], Object.addr = 0x2000, typaddr = 0\<rparr>],
      finalizers := [\<lparr>obj = 0x1000, fn = 0x200c, code = 0, fint = 0, ot = 0\<rparr>]\<rparr>"

text \<open>
  A dump with an empty-interface field: the object \<open>X\<close> at \<open>0x1000\<close> has the type at
  \<open>0x500\<close>, whose one field is an eface at offset 0. The type word of the field is
  \<open>0x2000\<close>, the address of a type with \<open>efaceptr = false\<close> and of the heap object \<open>Y\<close>;
  the data word is \<open>0x1000\<close>, the address of \<open>X\<close>.
\<close>

definition eface_field :: Field where
  "eface_field = \<lparr>Field.kind = fieldKindEface, offset = 0\<rparr>"

definition scalar_type :: Type where
  "scalar_type = \<lparr>Type.name = ''int'', size' = 8, efaceptr = False, fields' = [], Type.addr = 0x2000\<rparr>"

definition eface_objects :: "Object list" where
  "eface_objects =
     [\<lparr>typ' = None, Object.kind = typeKindObject,
       data = [0, 0x20, 0, 0, 0, 0, 0, 0, 0, 0x10, 0, 0, 0, 0, 0, 0], edges = [],
       Object.addr = 0x1000, typaddr = 0x500\<rparr>,
      \<lparr>typ' = None, Object.kind = typeKindObject, data = [0, 0, 0, 0, 0, 0, 0, 0], edges = [],
       Object.addr = 0x2000, typaddr = 0\<rparr>]"

definition eface_dump :: Dump where
  "eface_dump = zeroDump
     \<lparr>order := Some LittleEndian, ptrSize := 8,
      Dump.types :=
        [\<lparr>Type.name = ''box'', size' = 16, efaceptr = False, fields' = [eface_field],
          Type.addr = 0x500\<rparr>,
         scalar_type],
      Dump.objects := eface_objects\<rparr>"

text \<open>
  In the words of the specification: passes at offsets \<open>i\<close>, \<open>i + size\<close>,
  \<open>i + 2 * size\<close>, ... while \<open>i + size \<le> len(payload)\<close> (unbounded numbers).
\<close>

function spec_pass_offsets :: "nat \<Rightarrow> nat \<Rightarrow> nat \<Rightarrow> nat list" where
  "spec_pass_offsets i sz len =
     (if 0 < sz \<and> i + sz \<le> len then i # spec_pass_offsets (i + sz) sz len else [])"
  by pat_completeness auto
termination
  by (relation "measure (\<lambda>(i, sz, len). len - i)") auto

declare spec_pass_offsets.simps [simp del]

text \<open>One pass of \<open>linkFields\<close> at each of the given offsets, in their order.\<close>

fun passesAt :: "LinkInfo \<Rightarrow> Dump \<Rightarrow> nat \<Rightarrow> Field list \<Rightarrow> Object list \<Rightarrow> u64 list \<Rightarrow> error + Object list" where
  "passesAt info d x fs objs [] = Inr objs"
| "passesAt info d x fs objs (i # is) =
     (case linkFields info d objs x fs i of
        Inl err \<Rightarrow> Inl err
      | Inr objs' \<Rightarrow> passesAt info d x fs objs' is)"

text \<open>The store with the payload of the object \<open>x\<close> replaced by \<open>b\<close>.\<close>

definition withData :: "Object list \<Rightarrow> nat \<Rightarrow> byte list \<Rightarrow> Object list" where
  "withData objs x b = objs[x := (objs ! x)\<lparr>data := b\<rparr>]"

text \<open>The interface cases of \<open>linkFields\<close> after the type or itab word \<open>tp\<close> was read.\<close>

definition dataWord :: "LinkInfo \<Rightarrow> Dump \<Rightarrow> Object list \<Rightarrow> nat \<Rightarrow> u64 \<Rightarrow> bool option \<Rightarrow> string \<Rightarrow> u64
    \<Rightarrow> error + Object list" where
  "dataWord info d objs x off flag msg tp =
     (if tp \<noteq> 0 then
        (case flag of
           None \<Rightarrow> Inl (Fatal msg)
         | Some isptr \<Rightarrow> if isptr then linkPtr info d objs x (off + ptrSize d) else Inr objs)
      else Inr objs)"

text \<open>
  Arrays and channels of pointers, little-endian with 8-byte pointers, \<open>hChanSize = 16\<close>.
  The element type has size 8 and one pointer field at offset 0. The array at \<open>0x1000\<close>
  has 24 bytes: the pointers \<open>0x1000\<close>, \<open>0\<close> and \<open>0x1000\<close>. The channel at \<open>0x1000\<close> has 32
  bytes: a header of 16 bytes that looks like two pointers to \<open>0x1000\<close>, then the
  elements \<open>0x1000\<close> and \<open>0\<close>.
\<close>

definition elem_type :: Type where
  "elem_type = \<lparr>Type.name = ''C'', size' = 8, efaceptr = False,
     fields' = [\<lparr>Field.kind = fieldKindPtr, offset = 0\<rparr>], Type.addr = 0x500\<rparr>"

definition params_dump :: Dump where
  "params_dump = zeroDump\<lparr>order := Some LittleEndian, ptrSize := 8, hChanSize := 16,
     Dump.types := [elem_type]\<rparr>"

definition array_objects :: "Object list" where
  "array_objects =
     [\<lparr>typ' = Some elem_type, Object.kind = typeKindArray,
       data = [0, 0x10, 0, 0, 0, 0, 0, 0,  0, 0, 0, 0, 0, 0, 0, 0,  0, 0x10, 0, 0, 0, 0, 0, 0],
       edges = [], Object.addr = 0x1000, typaddr = 0x500\<rparr>]"

definition chan_objects :: "Object list" where
  "chan_objects =
     [\<lparr>typ' = Some elem_type, Object.kind = typeKindChan,
       data = [0, 0x10, 0, 0, 0, 0, 0, 0,  0, 0x10, 0, 0, 0, 0, 0, 0,
               0, 0x10, 0, 0, 0, 0, 0, 0,  0, 0, 0, 0, 0, 0, 0, 0],
       edges = [], Object.addr = 0x1000, typaddr = 0x500\<rparr>]"

definition chan_other_header :: "byte list" where
  "chan_other_header =
     [0, 0, 0, 0, 0, 0, 0, 0,  0, 0, 0, 0, 0, 0, 0, 0,
      0, 0x10, 0, 0, 0, 0, 0, 0,  0, 0, 0, 0, 0, 0, 0, 0]"

text \<open>
  An array whose payload is shorter than its type: the type at \<open>0x500\<close> has size 16 and
  a pointer field at offset 0, the array at \<open>0x1000\<close> has 8 bytes, a pointer to the
  object at \<open>0x2000\<close>.
\<close>

definition short_array_dump :: Dump where
  "short_array_dump = zeroDump
     \<lparr>order := Some LittleEndian, ptrSize := 8,
      Dump.types :=
        [\<lparr>Type.name = ''pair'', size' = 16, efaceptr = False,
          fields' = [\<lparr>Field.kind = fieldKindPtr, offset = 0\<rparr>], Type.addr = 0x500\<rparr>],
      Dump.objects :=
        [\<lparr>typ' = None, Object.kind = typeKindArray, data = [0, 0x20, 0, 0, 0, 0, 0, 0], edges = [],
          Object.addr = 0x1000, typaddr = 0x500\<rparr>,
         \<lparr>typ' = None, Object.kind = typeKindObject, data = [0, 0, 0, 0, 0, 0, 0, 0], edges = [],
          Object.addr = 0x2000, typaddr = 0\<rparr>]\<rparr>"

text \<open>
  A type is well laid out for the pointer size \<open>ps\<close> when its fields are listed by
  increasing offset, at least a pointer apart, each with room for a pointer within the
  size of the type.
\<close>

definition wellLaid :: "u64 \<Rightarrow> Type \<Rightarrow> bool" where
  "wellLaid ps t =
     (sorted_wrt (\<lambda>f g. unat (offset f) + unat ps \<le> unat (offset g)) (fields' t) \<and>
      (\<forall>f\<in>set (fields' t). unat (offset f) + unat ps \<le> unat (size' t)))"

text \<open>The edges \<open>es\<close> are ordered by \<open>fromoffset\<close>, and all of them leave between \<open>lo\<close> and \<open>hi\<close>.\<close>

definition inWindow :: "nat \<Rightarrow> nat \<Rightarrow> Edge list \<Rightarrow> bool" where
  "inWindow lo hi es =
     (sorted (map (\<lambda>edge. unat (fromoffset edge)) es) \<and>
      (\<forall>edge\<in>set es. lo \<le> unat (fromoffset edge) \<and> unat (fromoffset edge) \<le> hi))"

text \<open>What the finalizer loop may do to the store: append to an object edges that leave
  at offset 0 and point to that object.\<close>

definition finExt :: "Object list \<Rightarrow> Object list \<Rightarrow> bool" where
  "finExt objs objs' =
     (length objs' = length objs \<and>
      (\<forall>x<length objs. \<exists>fin. edges (objs' ! x) = edges (objs ! x) @ fin \<and>
         (\<forall>edge\<in>set fin. fromoffset edge = 0 \<and> to edge = x) \<and>
         typ' (objs' ! x) = typ' (objs ! x) \<and> Object.kind (objs' ! x) = Object.kind (objs ! x) \<and>
         data (objs' ! x) = data (objs ! x)))"

text \<open>What the theorem asks of a typed object: a type that is well laid out and, for an
  array or a channel, a positive size that the payload can hold.\<close>

definition scannable :: "Dump \<Rightarrow> Object \<Rightarrow> bool" where
  "scannable d ob =
     (case typ' ob of
        None \<Rightarrow> True
      | Some t \<Rightarrow>
          wellLaid (ptrSize d) t \<and>
          (Object.kind ob = typeKindArray \<or> Object.kind ob = typeKindChan \<longrightarrow>
             0 < unat (size' t) \<and> unat (size' t) \<le> length (data ob) \<and> length (data ob) < 2 ^ 64))"

text \<open>
  What the order of the edges asks of a dump before linking: every type is well laid out,
  no object has edges yet, and an array or a channel holds at least one element of a
  type of positive size.
\<close>

definition orderedLayout :: "Dump \<Rightarrow> bool" where
  "orderedLayout d =
     ((\<forall>t\<in>set (Dump.types d). wellLaid (ptrSize d) t) \<and>
      (\<forall>ob\<in>set (Dump.objects d). edges ob = [] \<and>
         (Object.kind ob = typeKindArray \<or> Object.kind ob = typeKindChan \<longrightarrow>
            length (data ob) < 2 ^ 64 \<and>
            (\<forall>t\<in>set (Dump.types d). Type.addr t = typaddr ob \<longrightarrow>
               0 < unat (size' t) \<and> unat (size' t) \<le> length (data ob)))))"

text \<open>
  Two objects, little-endian with 8-byte pointers: \<open>X\<close> at \<open>0x1000\<close> has the type at
  \<open>0x500\<close> (size 16) and holds two pointers to \<open>Y\<close> at \<open>0x2000\<close>. In
  \<open>unordered_fields_dump\<close> the type lists its pointer field at offset 8 before the one at
  offset 0. In \<open>finalized_pair_dump\<close> the fields are listed by offset, and \<open>X\<close> has a
  finalizer whose function lies in \<open>Y\<close>.
\<close>

definition pair_objects :: "Object list" where
  "pair_objects =
     [\<lparr>typ' = None, Object.kind = typeKindObject,
       data = [0, 0x20, 0, 0, 0, 0, 0, 0,  0, 0x20, 0, 0, 0, 0, 0, 0], edges = [],
       Object.addr = 0x1000, typaddr = 0x500\<rparr>,
      \<lparr>typ' = None, Object.kind = typeKindObject, data = [0, 0, 0, 0, 0, 0, 0, 0], edges = [],
       Object.addr = 0x2000, typaddr = 0\<rparr>]"

definition unordered_fields_dump :: Dump where
  "unordered_fields_dump = zeroDump
     \<lparr>order := Some LittleEndian, ptrSize := 8,
      Dump.types :=
        [\<lparr>Type.name = ''pair'', size' = 16, efaceptr = False,
          fields' = [\<lparr>Field.kind = fieldKindPtr, offset = 8\<rparr>, \<lparr>Field.kind = fieldKindPtr, offset = 0\<rparr>],
          Type.addr = 0x500\<rparr>],
      Dump.objects := pair_objects\<rparr>"

definition finalized_pair_dump :: Dump where
  "finalized_pair_dump = zeroDump
     \<lparr>order := Some LittleEndian, ptrSize := 8,
      Dump.types :=
        [\<lparr>Type.name = ''pair'', size' = 16, efaceptr = False,
          fields' = [\<lparr>Field.kind = fieldKindPtr, offset = 0\<rparr>, \<lparr>Field.kind = fieldKindPtr, offset = 8\<rparr>],
          Type.addr = 0x500\<rparr>],
      Dump.objects := pair_objects,
      finalizers := [\<lparr>obj = 0x1000, fn = 0x2000, code = 0, fint = 0, ot = 0\<rparr>]\<rparr>"

text \<open>
  The address \<open>p\<close> lies inside the object \<open>q\<close>: in its range \<open>[addr, addr + len(data))\<close>,
  with the end of the range as an unbounded number.
\<close>

definition inside :: "Object list \<Rightarrow> nat \<Rightarrow> u64 \<Rightarrow> bool" where
  "inside objs q p =
     (unat (Object.addr (objs ! q)) \<le> unat p \<and>
      unat p < unat (Object.addr (objs ! q)) + length (data (objs ! q)))"

text \<open>
  A heap that is laid out: \<open>h\<close> lists objects in the order of their addresses, each
  ends before the next one starts, and none reaches the end of the address space.
\<close>

definition laidOut :: "Object list \<Rightarrow> nat list \<Rightarrow> bool" where
  "laidOut objs h =
     (sorted_wrt (\<lambda>i j. unat (Object.addr (objs ! i)) + length (data (objs ! i))
                      \<le> unat (Object.addr (objs ! j))) h \<and>
      (\<forall>i\<in>set h. unat (Object.addr (objs ! i)) + length (data (objs ! i)) < 2 ^ 64))"

text \<open>Objects that are not empty and do not overlap.\<close>

definition separate :: "Object list \<Rightarrow> bool" where
  "separate objs =
     (\<forall>i<length objs.
        0 < length (data (objs ! i)) \<and>
        unat (Object.addr (objs ! i)) + length (data (objs ! i)) < 2 ^ 64 \<and>
        (\<forall>j<length objs. i \<noteq> j \<longrightarrow>
           unat (Object.addr (objs ! i)) + length (data (objs ! i)) \<le> unat (Object.addr (objs ! j)) \<or>
           unat (Object.addr (objs ! j)) + length (data (objs ! j)) \<le> unat (Object.addr (objs ! i))))"

text \<open>
  Three objects, stored out of the order of their addresses: the scanned object at
  \<open>0x3000\<close> (the type at \<open>0x500\<close>, one eface field at offset 0), an object at \<open>0x1000\<close>
  and an object at \<open>0x2000\<close>, 8 bytes each. The type word of the field is \<open>0x2004\<close>: the
  address of a type with \<open>efaceptr = false\<close>, and an address in the middle of the object
  at \<open>0x2000\<close>, which is the middle one of the heap \<open>[1, 2, 0]\<close>. The data word is \<open>0x1000\<close>.
\<close>

definition inner_type :: Type where
  "inner_type = \<lparr>Type.name = ''int'', size' = 8, efaceptr = False, fields' = [], Type.addr = 0x2004\<rparr>"

definition middle_objects :: "Object list" where
  "middle_objects =
     [\<lparr>typ' = None, Object.kind = typeKindObject,
       data = [0x04, 0x20, 0, 0, 0, 0, 0, 0, 0, 0x10, 0, 0, 0, 0, 0, 0], edges = [],
       Object.addr = 0x3000, typaddr = 0x500\<rparr>,
      \<lparr>typ' = None, Object.kind = typeKindObject, data = [0, 0, 0, 0, 0, 0, 0, 0], edges = [],
       Object.addr = 0x1000, typaddr = 0\<rparr>,
      \<lparr>typ' = None, Object.kind = typeKindObject, data = [0, 0, 0, 0, 0, 0, 0, 0], edges = [],
       Object.addr = 0x2000, typaddr = 0\<rparr>]"

definition middle_dump :: Dump where
  "middle_dump = zeroDump
     \<lparr>order := Some LittleEndian, ptrSize := 8,
      Dump.types :=
        [\<lparr>Type.name = ''box'', size' = 16, efaceptr = False, fields' = [eface_field],
          Type.addr = 0x500\<rparr>,
         inner_type],
      Dump.objects := middle_objects\<rparr>"

text \<open>
  Two objects that overlap: 256 bytes at \<open>0x1000\<close> and 8 bytes at \<open>0x1010\<close>, inside the
  first.
\<close>

definition overlapping_objects :: "Object list" where
  "overlapping_objects =
     [\<lparr>typ' = None, Object.kind = typeKindObject, data = replicate 256 0, edges = [],
       Object.addr = 0x1000, typaddr = 0\<rparr>,
      \<lparr>typ' = None, Object.kind = typeKindObject, data = replicate 8 0, edges = [],
       Object.addr = 0x1010, typaddr = 0\<rparr>]"

text \<open>An array of a type of size 0 that has no fields, with an empty payload.\<close>

definition zero_type :: Type where
  "zero_type = \<lparr>Type.name = ''E'', size' = 0, efaceptr = False, fields' = [], Type.addr = 0x600\<rparr>"

definition zero_array_objects :: "Object list" where
  "zero_array_objects =
     [\<lparr>typ' = Some zero_type, Object.kind = typeKindArray, data = [], edges = [],
       Object.addr = 0x1000, typaddr = 0x600\<rparr>]"

section \<open>Properties of the viewer\<close>

subsection \<open>Goroutine states\<close>

lemma goListHandler_fatal:
  "g \<in> set gs \<Longrightarrow> goState g = Inl e \<Longrightarrow> \<exists>e'. goListHandler i gs = Inl e'"
proof (induction gs arbitrary: i)
  case Nil
  then show ?case by simp
next
  case (Cons a gs)
  show ?case
  proof (cases "goState a")
    case (Inl x)
    then show ?thesis by simp
  next
    case (Inr s)
    with Cons have "g \<in> set gs" by auto
    from Cons.IH[OF this Cons.prems(2)] Inr show ?thesis by simp
  qed
qed

lemma goListHandler_fatal_msg:
  "goListHandler i gs = Inl e \<Longrightarrow> \<exists>g\<in>set gs. goState g = Inl e"
  by (induction gs arbitrary: i) (auto split: sum.splits)

lemma goListHandler_ok:
  "\<forall>g\<in>set gs. goState g = Inr (st g) \<Longrightarrow>
   goListHandler i gs = Inr (i @ map (\<lambda>g. \<lparr>Name = goName g, State = st g\<rparr>) gs)"
  by (induction gs arbitrary: i) auto

text \<open>
  C9. The status codes 0, 1, 3, 4 and 5 give the states idle, runnable, syscall, the
  goroutine's wait reason and dead. Code 2 is fatal, and so is every other code outside
  \<open>{0, 1, 3, 4, 5}\<close>: a goroutine with such a code anywhere in the list ends the handler
  with \<open>log.Fatal\<close>.
\<close>

theorem goroutine_status_mapping:
  "(Status g = 0 \<longrightarrow> goState g = Inr ''idle'') \<and>
   (Status g = 1 \<longrightarrow> goState g = Inr ''runnable'') \<and>
   (Status g = 3 \<longrightarrow> goState g = Inr ''syscall'') \<and>
   (Status g = 4 \<longrightarrow> goState g = Inr (WaitReason g)) \<and>
   (Status g = 5 \<longrightarrow> goState g = Inr ''dead'') \<and>
   (Status g = 2 \<longrightarrow> goState g = Inl (Fatal ''found running goroutine in heap dump'')) \<and>
   (Status g \<notin> {0, 1, 2, 3, 4, 5} \<longrightarrow> goState g = Inl (Fatal ''unknown goroutine status'')) \<and>
   (g \<in> set gs \<and> Status g \<notin> {0, 1, 3, 4, 5} \<longrightarrow> (\<exists>msg. goListHandler i gs = Inl (Fatal msg)))"
proof -
  have a: "Status g \<notin> {0, 1, 3, 4, 5} \<Longrightarrow> \<exists>msg. goState g = Inl (Fatal msg)"
    by (auto simp: goState_def)
  have "\<exists>msg. goListHandler i gs = Inl (Fatal msg)"
    if "g \<in> set gs" "Status g \<notin> {0, 1, 3, 4, 5}"
  proof -
    from a that obtain m where "goState g = Inl (Fatal m)" by blast
    with goListHandler_fatal that obtain e' where e: "goListHandler i gs = Inl e'" by blast
    from goListHandler_fatal_msg[OF e] obtain g' where "goState g' = Inl e'" by blast
    then have "\<exists>msg. e' = Fatal msg" by (auto simp: goState_def split: if_splits)
    with e show ?thesis by auto
  qed
  then show ?thesis by (auto simp: goState_def)
qed

theorem goroutine_status_mapping_witness:
  "goState \<lparr>Addr = 0x1f, Status = 4, WaitReason = ''chan receive''\<rparr> = Inr ''chan receive'' \<and>
   goState \<lparr>Addr = 0x20, Status = 2, WaitReason = []\<rparr>
     = Inl (Fatal ''found running goroutine in heap dump'') \<and>
   (\<exists>msg. goListHandler []
       [\<lparr>Addr = 0x1f, Status = 4, WaitReason = ''chan receive''\<rparr>,
        \<lparr>Addr = 0x20, Status = 2, WaitReason = []\<rparr>] = Inl (Fatal msg))"
  using goroutine_status_mapping[of "\<lparr>Addr = 0x1f, Status = 4, WaitReason = ''chan receive''\<rparr>"]
    goroutine_status_mapping[of "\<lparr>Addr = 0x20, Status = 2, WaitReason = []\<rparr>"
      "[\<lparr>Addr = 0x1f, Status = 4, WaitReason = ''chan receive''\<rparr>,
        \<lparr>Addr = 0x20, Status = 2, WaitReason = []\<rparr>]" "[]"]
  by simp

subsection \<open>The reverse-edge index\<close>

lemma refEdges_step:
  assumes "refEdges x refs es = Some refs'" "refs_inv refs" "0 \<le> x"
  shows "refs_inv refs' \<and> length (fst refs') = length (fst refs) \<and>
         (\<forall>e\<in>set es. inrange (To e) (length (fst refs))) \<and>
         (\<forall>k. inrange k (length (fst refs)) \<longrightarrow>
            referrers (fst refs') (snd refs') k = referrers (fst refs) (snd refs) k @ edgeSources k x es)"
  using assms
proof (induction es arbitrary: refs)
  case Nil
  then show ?case by (cases refs) (simp add: edgeSources_def)
next
  case (Cons e es)
  obtain r1 r2 where refs: "refs = (r1, r2)" by (cases refs)
  from Cons.prems refs have rng: "inrange (To e) (length r1)" by (auto split: if_splits)
  define mid where "mid = (if r1 ! nat (To e) < 0 then (r1[nat (To e) := x], r2)
      else (r1, r2(To e \<mapsto> ref2_at r2 (To e) @ [x])))"
  from Cons.prems refs rng have run: "refEdges x mid es = Some refs'"
    by (auto simp: mid_def split: if_splits)
  have neg: "r1 ! nat (To e) < 0 \<longleftrightarrow> r1 ! nat (To e) = - 1"
    using Cons.prems(2) rng unfolding refs_inv_def refs
    by (metis fst_conv neg_0_le_iff_le not_one_le_zero verit_comp_simplify1(3))
  have inj: "\<And>k. inrange k (length r1) \<Longrightarrow> nat k = nat (To e) \<longleftrightarrow> k = To e"
    using rng by (auto simp: inrange_def)
  have inv_mid: "refs_inv mid"
  proof (cases "r1 ! nat (To e) < 0")
    case True
    then have m: "mid = (r1[nat (To e) := x], r2)" by (simp add: mid_def)
    show ?thesis
      using Cons.prems(2,3) rng inj unfolding refs_inv_def refs m
      by (auto simp: nth_list_update inrange_def)
  next
    case False
    then have m: "mid = (r1, r2(To e \<mapsto> ref2_at r2 (To e) @ [x]))" by (simp add: mid_def)
    show ?thesis
      using Cons.prems(2) False unfolding refs_inv_def refs m
      by (auto simp: ref2_at_def)
  qed
  have len_mid: "length (fst mid) = length r1" by (simp add: mid_def)
  have step: "referrers (fst mid) (snd mid) k = referrers r1 r2 k @ edgeSources k x [e]"
    if k: "inrange k (length r1)" for k
  proof (cases "r1 ! nat (To e) < 0")
    case True
    then have m: "mid = (r1[nat (To e) := x], r2)" by (simp add: mid_def)
    from True neg Cons.prems(2) rng have e2: "ref2_at r2 (To e) = []"
      unfolding refs_inv_def refs by auto
    show ?thesis
      using k rng inj[OF k] True neg e2 Cons.prems(3) unfolding m
      by (auto simp: referrers_def edgeSources_def nth_list_update inrange_def)
  next
    case False
    then have m: "mid = (r1, r2(To e \<mapsto> ref2_at r2 (To e) @ [x]))" by (simp add: mid_def)
    show ?thesis
      using k False neg unfolding m
      by (auto simp: referrers_def edgeSources_def ref2_at_def)
  qed
  from Cons.IH[OF run inv_mid Cons.prems(3)] len_mid
  have ih: "refs_inv refs'" "length (fst refs') = length r1"
     "\<forall>e\<in>set es. inrange (To e) (length r1)"
     "\<And>k. inrange k (length r1) \<Longrightarrow>
        referrers (fst refs') (snd refs') k = referrers (fst mid) (snd mid) k @ edgeSources k x es"
    by auto
  show ?case
    using ih rng step by (auto simp: refs edgeSources_def)
qed


lemma refObjects_step:
  assumes "refObjects d xs refs = Some refs'" "refs_inv refs" "\<forall>x\<in>set xs. 0 \<le> x"
  shows "refs_inv refs' \<and> length (fst refs') = length (fst refs) \<and>
         (\<forall>x\<in>set xs. \<forall>e\<in>set (Edges d x). inrange (To e) (length (fst refs))) \<and>
         (\<forall>k. inrange k (length (fst refs)) \<longrightarrow>
            referrers (fst refs') (snd refs') k =
            referrers (fst refs) (snd refs) k @ concat (map (\<lambda>x. edgeSources k x (Edges d x)) xs))"
  using assms
proof (induction xs arbitrary: refs)
  case Nil
  then show ?case by simp
next
  case (Cons x xs)
  from Cons.prems(1) obtain mid where
    e: "refEdges x refs (Edges d x) = Some mid" and r: "refObjects d xs mid = Some refs'"
    by (auto split: option.splits)
  from Cons.prems(3) have x0: "0 \<le> x" and xs0: "\<forall>x\<in>set xs. 0 \<le> x" by auto
  note s = refEdges_step[OF e Cons.prems(2) x0]
  from s have inv: "refs_inv mid" and len: "length (fst mid) = length (fst refs)" by auto
  note ih = Cons.IH[OF r inv xs0]
  show ?case using s ih len by auto
qed

lemma refs_inv_init: "refs_inv (replicate n (- 1), Map.empty)"
  by (simp add: refs_inv_def ref2_at_def inrange_def)

lemma referrers_init: "inrange k n \<Longrightarrow> referrers (replicate n (- 1)) Map.empty k = []"
  by (simp add: referrers_def ref2_at_def inrange_def)

lemma prepare_referrers:
  assumes "prepare d = Some (byType, ref1, ref2)"
  shows "length ref1 = nObjects d"
    and "refs_inv (ref1, ref2)"
    and "\<forall>x\<in>set (objIds d). \<forall>e\<in>set (Edges d x). inrange (To e) (nObjects d)"
    and "inrange k (nObjects d) \<Longrightarrow>
           referrers ref1 ref2 k = concat (map (\<lambda>x. edgeSources k x (Edges d x)) (objIds d))"
proof -
  from assms have r: "refObjects d (objIds d) (replicate (nObjects d) (- 1), Map.empty) = Some (ref1, ref2)"
    by (auto simp: prepare_def split: option.splits)
  have pos: "\<forall>x\<in>set (objIds d). 0 \<le> x" by (auto simp: objIds_def)
  note s = refObjects_step[OF r refs_inv_init pos]
  from s show "length ref1 = nObjects d" by simp
  from s show "refs_inv (ref1, ref2)" by simp
  from s show "\<forall>x\<in>set (objIds d). \<forall>e\<in>set (Edges d x). inrange (To e) (nObjects d)" by simp
  show "referrers ref1 ref2 k = concat (map (\<lambda>x. edgeSources k x (Edges d x)) (objIds d))"
    if "inrange k (nObjects d)"
    using s that by (simp add: referrers_init)
qed

lemma count_list_replicate: "count_list (replicate n x) s = (if x = s then n else 0)"
  by (induction n) auto

lemma count_list_concat_replicate:
  "distinct xs \<Longrightarrow>
   count_list (concat (map (\<lambda>x. replicate (n x) x) xs)) s = (if s \<in> set xs then n s else 0)"
  by (induction xs) (auto simp: count_list_replicate)

lemma edgeSources_replicate:
  "edgeSources k x es = replicate (length (filter (\<lambda>e. To e = k) es)) x"
  by (simp add: edgeSources_def map_replicate_const)

lemma set_objIds: "s \<in> set (objIds d) \<longleftrightarrow> inrange s (nObjects d)"
  by (auto simp: objIds_def inrange_def image_iff intro: bexI[of _ "nat s"])

lemma distinct_objIds: "distinct (objIds d)"
  by (simp add: objIds_def distinct_map inj_on_def)

lemma distinct_count_le1: "(\<And>s. count_list xs s \<le> 1) \<Longrightarrow> distinct xs"
proof (induction xs)
  case Nil then show ?case by simp
next
  case (Cons a xs)
  from Cons.prems[of a] have "count_list xs a = 0" by simp
  then have "a \<notin> set xs" by (simp add: count_list_0_iff)
  moreover have "count_list xs s \<le> 1" for s using Cons.prems[of s] by (simp split: if_splits)
  ultimately show ?case using Cons.IH by simp
qed

text \<open>
  C4. Once \<open>prepare\<close> has run, every edge from \<open>s\<close> to \<open>To e\<close> has its source recorded:
  \<open>s\<close> is \<open>ref1[To e]\<close> or an entry of \<open>ref2[To e]\<close>, and \<open>ref1[To e]\<close> is not the
  sentinel \<open>-1\<close>.
\<close>

theorem reverse_edge_completeness:
  assumes "prepare d = Some (byType, ref1, ref2)"
    and "s < nObjects d"
    and "e \<in> set (Edges d (int s))"
  shows "(ref1 ! nat (To e) = int s \<or> int s \<in> set (ref2_at ref2 (To e))) \<and> ref1 ! nat (To e) \<noteq> - 1"
proof -
  have sid: "int s \<in> set (objIds d)" using assms(2) by (simp add: objIds_def)
  with prepare_referrers(3)[OF assms(1)] assms(3)
  have k: "inrange (To e) (nObjects d)" by blast
  have "int s \<in> set (edgeSources (To e) (int s) (Edges d (int s)))"
    using assms(3) by (auto simp: edgeSources_def)
  with sid have "int s \<in> set (concat (map (\<lambda>x. edgeSources (To e) x (Edges d x)) (objIds d)))"
    by auto
  then have m: "int s \<in> set (referrers ref1 ref2 (To e))"
    using prepare_referrers(4)[OF assms(1) k] by simp
  have "ref1 ! nat (To e) = - 1 \<Longrightarrow> ref2_at ref2 (To e) = []"
    using prepare_referrers(1,2)[OF assms(1)] k by (auto simp: refs_inv_def)
  with m show ?thesis by (auto simp: referrers_def split: if_splits)
qed

text \<open>
  C3, as amended. \<open>prepare\<close> records one referrer per edge, not per source object: in
  \<open>ref1[k]\<close> followed by \<open>ref2[k]\<close>, a source \<open>s\<close> stands once for each of its edges to
  \<open>k\<close>. So \<open>ref1[k]\<close> does not occur in \<open>ref2[k]\<close>, and \<open>ref2[k]\<close> has no duplicates, when
  no object has more than one edge to \<open>k\<close>.
\<close>

theorem reverse_edge_multiplicity:
  assumes "prepare d = Some (byType, ref1, ref2)"
    and "inrange k (nObjects d)"
  shows "(\<forall>s. count_list (referrers ref1 ref2 k) s =
            (if inrange s (nObjects d) then length (filter (\<lambda>e. To e = k) (Edges d s)) else 0)) \<and>
         ((\<forall>s\<in>set (objIds d). length (filter (\<lambda>e. To e = k) (Edges d s)) \<le> 1) \<longrightarrow>
            ref1 ! nat k \<notin> set (ref2_at ref2 k) \<and> distinct (ref2_at ref2 k))"
proof -
  have cnt: "count_list (referrers ref1 ref2 k) s =
      (if inrange s (nObjects d) then length (filter (\<lambda>e. To e = k) (Edges d s)) else 0)" for s
    unfolding prepare_referrers(4)[OF assms] edgeSources_replicate
    using count_list_concat_replicate[OF distinct_objIds, of "\<lambda>x. length (filter (\<lambda>e. To e = k) (Edges d x))" d s]
    by (simp add: set_objIds)
  have "ref1 ! nat k \<notin> set (ref2_at ref2 k) \<and> distinct (ref2_at ref2 k)"
    if one: "\<forall>s\<in>set (objIds d). length (filter (\<lambda>e. To e = k) (Edges d s)) \<le> 1"
  proof -
    have "count_list (referrers ref1 ref2 k) s \<le> 1" for s
      using cnt[of s] one by (auto simp: set_objIds)
    then have dist: "distinct (referrers ref1 ref2 k)" by (rule distinct_count_le1)
    have "ref1 ! nat k = - 1 \<Longrightarrow> ref2_at ref2 k = []"
      using prepare_referrers(1,2)[OF assms(1)] assms(2) by (auto simp: refs_inv_def)
    with dist show ?thesis by (auto simp: referrers_def split: if_splits)
  qed
  with cnt show ?thesis by blast
qed

lemma objIds_two: "nObjects d = 2 \<Longrightarrow> objIds d = [0, 1]"
  by (simp add: objIds_def upt_conv_Cons)

text \<open>
  C3 as stated fails: object 0 has three edges to object 1, and \<open>prepare\<close> leaves
  \<open>ref1[1] = 0\<close> and \<open>ref2[1] = [0, 0]\<close>.
\<close>

theorem reverse_edge_minimality_counterexample:
  "map_option (\<lambda>(byType, ref1, ref2). (ref1, ref2_at ref2 1)) (prepare one_source_three_edges)
     = Some ([- 1, 0], [0, 0])"
  by (simp add: prepare_def objIds_two one_source_three_edges_def inrange_def ref2_at_def eval_nat_numeral)

lemma objIds_three: "nObjects d = 3 \<Longrightarrow> objIds d = [0, 1, 2]"
  by (simp add: objIds_def upt_conv_Cons)

lemma prepare_two_sources:
  "prepare two_sources = Some ([\<lparr>bytes = 48, objects = [0, 1, 2]\<rparr>], [- 1, - 1, 0], [2 \<mapsto> [1]])"
  by (simp add: prepare_def objIds_three two_sources_def inrange_def ref2_at_def eval_nat_numeral)

theorem reverse_edge_completeness_witness:
  "prepare two_sources = Some ([\<lparr>bytes = 48, objects = [0, 1, 2]\<rparr>], [- 1, - 1, 0], [2 \<mapsto> [1]]) \<and>
   (1::nat) < nObjects two_sources \<and>
   \<lparr>To = 2, FromOffset = 8, ToOffset = 4, FieldName = []\<rparr> \<in> set (Edges two_sources (int 1)) \<and>
   ([- 1, - 1, 0] ! nat 2 = int 1 \<or> int 1 \<in> set (ref2_at [2 \<mapsto> [1]] 2)) \<and> [- 1, - 1, 0::int] ! nat 2 \<noteq> - 1"
proof -
  have a: "(1::nat) < nObjects two_sources" by (simp add: two_sources_def)
  have b: "\<lparr>To = 2, FromOffset = 8, ToOffset = 4, FieldName = []\<rparr> \<in> set (Edges two_sources (int 1))"
    by (simp add: two_sources_def)
  from reverse_edge_completeness[OF prepare_two_sources a b] prepare_two_sources a b
  show ?thesis by simp
qed

theorem reverse_edge_multiplicity_witness:
  "prepare two_sources = Some ([\<lparr>bytes = 48, objects = [0, 1, 2]\<rparr>], [- 1, - 1, 0], [2 \<mapsto> [1]]) \<and>
   inrange 2 (nObjects two_sources) \<and>
   count_list (referrers [- 1, - 1, 0] [2 \<mapsto> [1]] 2) 1 = 1 \<and>
   [- 1, - 1, 0] ! nat 2 \<notin> set (ref2_at [2 \<mapsto> [1]] 2) \<and> distinct (ref2_at [2 \<mapsto> [1]] 2)"
proof -
  have a: "inrange 2 (nObjects two_sources)" by (simp add: two_sources_def inrange_def)
  have one: "\<forall>s\<in>set (objIds two_sources). length (filter (\<lambda>e. To e = 2) (Edges two_sources s)) \<le> 1"
    by (simp add: objIds_three two_sources_def)
  have c: "length (filter (\<lambda>e. To e = 2) (Edges two_sources 1)) = 1" "inrange 1 (nObjects two_sources)"
    by (simp_all add: two_sources_def inrange_def)
  from reverse_edge_multiplicity[OF prepare_two_sources a] one c prepare_two_sources a
  show ?thesis by simp
qed

section \<open>Properties of the reader\<close>

text \<open>
  Early exits on concrete inputs: the messages of the two formatted fatal exits, and the
  panic of \<open>make\<close> for a length beyond the limit (one byte more than \<open>2^48\<close> bytes, and
  \<open>2^44 + 1\<close> fields of 16 bytes), where a length within the limit that the stream cannot
  fill is a failed read.
\<close>

lemma unknown_record_message:
  "readRecord 2 zeroDump [] = Inl (Fatal ''unknown record kind %d2'') \<and>
   readRecord 150 zeroDump [] = Inl (Fatal ''unknown record kind %d150'')"
  by code_simp

lemma unsupported_message:
  "readPtr (zeroDump\<lparr>order := Some LittleEndian, ptrSize := 16\<rparr>) [] =
     Inl (Fatal ''unsupported order=%v ptrSize=%dLittleEndian 16'') \<and>
   readPtr zeroDump [] = Inl (Fatal ''unsupported order=%v ptrSize=%d<nil> 0'')"
  by code_simp

lemma readNBytes_limit:
  "readNBytes 0x1000000000001 [] = Inl Panic \<and> readNBytes 2 [7] = Inl ReadFailed \<and>
   readNBytes 2 [7, 8, 9] = Inr ([7, 8], [9])"
  by code_simp

lemma readType_limit:
  "readType [0, 0, 0, 0, 0x81, 0x80, 0x80, 0x80, 0x80, 0x80, 0x04] = Inl Panic"
  by code_simp

lemma gostring_gobytes: "gostring (gobytes s) = s"
proof -
  have "char_of (unat (of_nat (of_char c) :: byte)) = c" for c :: char
  proof -
    have "of_char c < (256::nat)" by (rule nat_of_char_less_256)
    then have "unat (of_nat (of_char c) :: byte) = of_char c"
      by (simp add: unat_of_nat)
    then show ?thesis by simp
  qed
  then show ?thesis by (simp add: gostring_def gobytes_def map_idI)
qed

lemma yields_rreturn: "P a \<Longrightarrow> yields P (rreturn a)"
  by (simp add: yields_def rreturn_def)

lemma yields_rbind: "(\<And>a. yields P (f a)) \<Longrightarrow> yields P (rbind m f)"
  unfolding yields_def rbind_def by (fastforce split: sum.splits)

lemma yields_fatal: "yields P (\<lambda>bs. Inl err)"
  by (simp add: yields_def)

lemma readRecord_osthreads: "yields (\<lambda>d'. osthreads d' = osthreads d) (readRecord tag d)"
  unfolding readRecord_def readParams_def
  by (auto intro!: yields_rbind yields_rreturn yields_fatal)

lemma rawReadLoop_osthreads:
  "rawReadLoop d bs = Inr d' \<Longrightarrow> osthreads d' = osthreads d"
proof (induction d bs rule: rawReadLoop.induct)
  case (1 d bs)
  from "1.prems" obtain tag bs1 where u: "readUint64 bs = Inr (tag, bs1)"
    by (subst (asm) rawReadLoop.simps) (auto split: sum.splits)
  show ?case
  proof (cases "tag = tagEOF")
    case True
    with "1.prems" u show ?thesis by (subst (asm) rawReadLoop.simps) simp
  next
    case False
    with "1.prems" u obtain d1 bs2 where
      r: "readRecord tag d bs1 = Inr (d1, bs2)" and l: "rawReadLoop d1 bs2 = Inr d'"
      by (subst (asm) rawReadLoop.simps) (auto split: sum.splits)
    from readRecord_osthreads[of d tag] r have "osthreads d1 = osthreads d"
      by (auto simp: yields_def)
    with "1.IH"[OF u refl False r refl l] show ?thesis by simp
  qed
qed

lemma rawRead_osthreads: "rawRead file = Inr d \<Longrightarrow> osthreads d = []"
  using rawReadLoop_osthreads[of zeroDump _ d]
  by (auto simp: rawRead_def zeroDump_def split: sum.splits prod.splits if_splits)

text \<open>No object has edges when the reader returns: \<open>readObject\<close> makes none, and no other
  record touches the objects.\<close>

lemma yields_rbind_with:
  "yields Q m \<Longrightarrow> (\<And>a. Q a \<Longrightarrow> yields P (f a)) \<Longrightarrow> yields P (rbind m f)"
  unfolding yields_def rbind_def by (fastforce split: sum.splits)

lemma readObject_no_edges: "yields (\<lambda>x. edges x = []) readObject"
  unfolding readObject_def
  by (intro yields_rbind yields_rreturn) simp

lemma readRecord_no_edges:
  assumes "\<forall>ob\<in>set (Dump.objects d). edges ob = []"
  shows "yields (\<lambda>d'. \<forall>ob\<in>set (Dump.objects d'). edges ob = []) (readRecord tag d)"
proof (cases "tag = tagObject")
  case True
  have "yields (\<lambda>d'. \<forall>ob\<in>set (Dump.objects d'). edges ob = [])
          (rbind readObject (\<lambda>x. rreturn (d\<lparr>Dump.objects := Dump.objects d @ [x]\<rparr>)))"
    using assms by (intro yields_rbind_with[OF readObject_no_edges] yields_rreturn) simp
  with True show ?thesis by (simp add: readRecord_def)
next
  case False
  have "yields (\<lambda>d'. Dump.objects d' = Dump.objects d) (readRecord tag d)"
    using False unfolding readRecord_def readParams_def
    by (auto intro!: yields_rbind yields_rreturn yields_fatal)
  with assms show ?thesis by (simp add: yields_def)
qed

lemma rawReadLoop_no_edges:
  "rawReadLoop d bs = Inr d' \<Longrightarrow> \<forall>ob\<in>set (Dump.objects d). edges ob = [] \<Longrightarrow>
   \<forall>ob\<in>set (Dump.objects d'). edges ob = []"
proof (induction d bs rule: rawReadLoop.induct)
  case (1 d bs)
  from "1.prems"(1) obtain tag bs1 where u: "readUint64 bs = Inr (tag, bs1)"
    by (subst (asm) rawReadLoop.simps) (auto split: sum.splits)
  show ?case
  proof (cases "tag = tagEOF")
    case True
    with "1.prems" u show ?thesis by (subst (asm) rawReadLoop.simps) simp
  next
    case False
    with "1.prems"(1) u obtain d1 bs2 where
      r: "readRecord tag d bs1 = Inr (d1, bs2)" and l: "rawReadLoop d1 bs2 = Inr d'"
      by (subst (asm) rawReadLoop.simps) (auto split: sum.splits)
    from readRecord_no_edges[OF "1.prems"(2), of tag] r
    have "\<forall>ob\<in>set (Dump.objects d1). edges ob = []"
      unfolding yields_def by blast
    from "1.IH"[OF u refl False r refl l this] show ?thesis .
  qed
qed

lemma rawRead_no_edges: "rawRead file = Inr d \<Longrightarrow> \<forall>ob\<in>set (Dump.objects d). edges ob = []"
  using rawReadLoop_no_edges[of zeroDump _ d]
  by (auto simp: rawRead_def zeroDump_def split: sum.splits prod.splits if_splits)

lemma ReadLine_line:
  assumes "10 \<notin> set h" "length h < 4096" "h = [] \<or> last h \<noteq> 13"
  shows "ReadLine (h @ 10 # rest) = Inr ((h, False), rest)"
proof -
  have t: "takeWhile (\<lambda>b. b \<noteq> 10) (h @ 10 # rest) = h"
    using assms(1) by (induction h) auto
  have "10 \<in> set (take 4096 (h @ 10 # rest))"
  proof -
    from assms(2) obtain k where "4096 - length h = Suc k"
      by (cases "4096 - length h") auto
    then show ?thesis by simp
  qed
  then show ?thesis
    using assms(3) unfolding ReadLine_def t by (auto simp: Let_def)
qed

lemma rawRead_header:
  "rawRead (gobytes ''go1.3 heap dump'' @ 10 # rest) = rawReadLoop zeroDump rest"
proof -
  have "ReadLine (gobytes ''go1.3 heap dump'' @ 10 # rest) = Inr ((gobytes ''go1.3 heap dump'', False), rest)"
    by (rule ReadLine_line) (simp_all add: gobytes_def)
  then show ?thesis by (simp add: rawRead_def gostring_gobytes)
qed

lemma readUint64_small: "b < 0x80 \<Longrightarrow> readUint64 (b # bs) = Inr (ucast b, bs)"
  by (simp add: readUint64_def)

text \<open>
  C6, which the code does not meet. The stream holds one OSThread record (tag 13) with
  addr \<open>0x10\<close>, id 7 and procid 9, then the end tag. \<open>rawRead\<close> reads the three fields
  and returns the zero dump: its \<open>osthreads\<close> is empty. (By \<open>rawRead_osthreads\<close> this holds
  of every dump \<open>rawRead\<close> returns.)
\<close>

theorem osthread_record_not_stored:
  "rawRead (gobytes ''go1.3 heap dump'' @ [10, 13, 0x10, 7, 9, 3]) = Inr zeroDump \<and>
   osthreads zeroDump = []"
  unfolding append_Cons append_Nil rawRead_header
  by (simp add: rawReadLoop.simps readRecord_def readOSThread_def rbind_def rreturn_def
      readUint64_small zeroDump_def)

section \<open>Properties of the linker\<close>

subsection \<open>Binary search and the heap lookup\<close>

lemma unat_of_nat64: "n < 2 ^ 64 \<Longrightarrow> unat (of_nat n :: u64) = n"
  by (simp add: unat_of_nat)

lemma unat_plus64:
  fixes a b :: u64
  assumes "unat a + unat b < 2 ^ 64"
  shows "unat (a + b) = unat a + unat b"
  using assms by (simp add: unat_word_ariths)

lemma Search_holds:
  "i \<le> j \<Longrightarrow> j \<le> n \<Longrightarrow> (j < n \<longrightarrow> f j) \<Longrightarrow> Search i j f < n \<Longrightarrow> f (Search i j f)"
proof (induction i j f rule: Search.induct)
  case (1 i j f)
  show ?case
  proof (cases "i < j")
    case True
    define h where "h = (i + j) div 2"
    from True have hb: "i \<le> h" "h < j" by (auto simp: h_def)
    show ?thesis
    proof (cases "f h")
      case False
      with True have eq: "Search i j f = Search (h + 1) j f"
        by (subst Search.simps) (simp add: h_def Let_def)
      from "1.IH"(1)[OF True h_def[symmetric, THEN sym] False] hb "1.prems" eq
      show ?thesis by simp
    next
      case fh: True
      with True have eq: "Search i j f = Search i h f"
        by (subst Search.simps) (simp add: h_def Let_def)
      from "1.IH"(2)[OF True h_def[symmetric, THEN sym]] fh hb "1.prems" eq
      show ?thesis by simp
    qed
  next
    case False
    with "1.prems" show ?thesis by (subst Search.simps, subst (asm) Search.simps) auto
  qed
qed

lemma Heap_find_Some:
  assumes "Heap_find objs h p = Some q"
  shows "q \<in> set h \<and> Object.addr (objs ! q) \<le> p \<and>
         p < Object.addr (objs ! q) + of_nat (length (data (objs ! q)))"
proof -
  define f where "f = (\<lambda>i. p < Object.addr (objs ! (h ! i)) + of_nat (length (data (objs ! (h ! i)))))"
  define j where "j = Search 0 (length h) f"
  from assms have j: "j < length h" "Object.addr (objs ! (h ! j)) \<le> p" "q = h ! j"
    by (auto simp: Heap_find_def Let_def f_def j_def split: if_splits)
  from Search_holds[of 0 "length h" "length h" f] j(1) have "f j" by (simp add: j_def)
  with j show ?thesis by (auto simp: f_def)
qed

lemma tooffset_bound:
  fixes p a :: u64
  assumes "a \<le> p" "p < a + of_nat n"
  shows "unat (p - a) < n"
proof -
  have "unat (a + of_nat n) \<le> unat a + unat (of_nat n :: u64)"
    by (simp add: unat_word_ariths)
  also have "unat (of_nat n :: u64) \<le> n" by (simp add: unat_of_nat)
  finally have "unat (a + of_nat n) \<le> unat a + n" by simp
  moreover from assms(2) have "unat p < unat (a + of_nat n)" by (simp add: word_less_nat_alt)
  moreover from assms(1) have "unat (p - a) = unat p - unat a" by (simp add: unat_sub)
  moreover from assms(1) have "unat a \<le> unat p" by (simp add: word_le_nat_alt)
  ultimately show ?thesis by arith
qed

lemma Search_split:
  assumes "i \<le> m" "m \<le> j" "\<forall>k<m. \<not> f k" "\<forall>k. m \<le> k \<and> k < j \<longrightarrow> f k"
  shows "Search i j f = m"
  using assms
proof (induction i j f rule: Search.induct)
  case (1 i j f)
  show ?case
  proof (cases "i < j")
    case True
    define h where "h = (i + j) div 2"
    from True have hb: "i \<le> h" "h < j" by (auto simp: h_def)
    show ?thesis
    proof (cases "f h")
      case False
      with True have eq: "Search i j f = Search (h + 1) j f"
        by (subst Search.simps) (simp add: h_def Let_def)
      from False hb "1.prems"(4) have "h < m" by (meson not_le_imp_less)
      then have "h + 1 \<le> m" by simp
      from "1.IH"(1)[OF True h_def[symmetric, THEN sym] False this "1.prems"(2,3,4)] eq
      show ?thesis by simp
    next
      case fh: True
      with True have eq: "Search i j f = Search i h f"
        by (subst Search.simps) (simp add: h_def Let_def)
      from fh "1.prems"(3) have mh: "m \<le> h" by (meson not_le_imp_less)
      from "1.prems"(4) hb have "\<forall>k. m \<le> k \<and> k < h \<longrightarrow> f k" by simp
      from "1.IH"(2)[OF True h_def[symmetric, THEN sym] _ "1.prems"(1) mh "1.prems"(3) this] fh eq
      show ?thesis by simp
    qed
  next
    case False
    with "1.prems" have "i = m" by simp
    with False show ?thesis by (subst Search.simps) simp
  qed
qed

lemma Heap_find_inside:
  assumes lo: "laidOut objs h" and q: "q \<in> set h" and ins: "inside objs q p"
  shows "Heap_find objs h p = Some q"
proof -
  define start where "start = (\<lambda>i. unat (Object.addr (objs ! i)))"
  define stop where "stop = (\<lambda>i. unat (Object.addr (objs ! i)) + length (data (objs ! i)))"
  define f where "f = (\<lambda>i. p < Object.addr (objs ! (h ! i)) + of_nat (length (data (objs ! (h ! i)))))"
  from lo have sw: "sorted_wrt (\<lambda>i j. stop i \<le> start j) h"
    and bd: "\<forall>i\<in>set h. stop i < 2 ^ 64"
    by (simp_all add: laidOut_def start_def stop_def)
  from q obtain a where a: "a < length h" "h ! a = q" by (auto simp: in_set_conv_nth)
  from ins have pq: "start q \<le> unat p" "unat p < stop q"
    by (simp_all add: inside_def start_def stop_def)
  have fk: "f k \<longleftrightarrow> unat p < stop (h ! k)" if "k < length h" for k
  proof -
    from that bd have b: "stop (h ! k) < 2 ^ 64" by simp
    then have "length (data (objs ! (h ! k))) < 2 ^ 64" by (simp add: stop_def)
    then have "unat (of_nat (length (data (objs ! (h ! k)))) :: u64) = length (data (objs ! (h ! k)))"
      by (rule unat_of_nat64)
    with b have "unat (Object.addr (objs ! (h ! k)) + of_nat (length (data (objs ! (h ! k)))))
        = stop (h ! k)"
      by (simp add: stop_def unat_plus64)
    then show ?thesis by (simp add: f_def word_less_nat_alt)
  qed
  from sw have nth: "stop (h ! i) \<le> start (h ! j)" if "i < j" "j < length h" for i j
    using that by (simp add: sorted_wrt_iff_nth_less)
  have below: "\<forall>k<a. \<not> f k"
  proof (intro allI impI)
    fix k assume k: "k < a"
    from nth[OF k a(1)] have "stop (h ! k) \<le> start q" by (simp only: a(2))
    with pq a k fk[of k] show "\<not> f k" by simp
  qed
  have above: "\<forall>k. a \<le> k \<and> k < length h \<longrightarrow> f k"
  proof (intro allI impI)
    fix k assume k: "a \<le> k \<and> k < length h"
    show "f k"
    proof (cases "k = a")
      case True
      with a pq fk[of k] show ?thesis by simp
    next
      case False
      with k have "a < k" by simp
      with k nth[of a k] have "stop q \<le> start (h ! k)" by (simp add: a(2))
      moreover have "start (h ! k) \<le> stop (h ! k)" by (simp add: start_def stop_def)
      ultimately show ?thesis using pq a k fk[of k] by simp
    qed
  qed
  from a have "a \<le> length h" by simp
  from Search_split[OF _ this below above] have s: "Search 0 (length h) f = a" by simp
  from pq(1) have "Object.addr (objs ! q) \<le> p" by (simp add: start_def word_le_nat_alt)
  with s a show ?thesis by (simp add: Heap_find_def Let_def f_def[symmetric])
qed

lemma sortedHeap_laidOut:
  assumes sh: "sortedHeap objs h" and sp: "separate objs"
  shows "laidOut objs h"
proof -
  from sh have dist: "distinct h" and mem: "set h = {0..<length objs}"
    and srt: "sorted_wrt (\<lambda>i j. Object.addr (objs ! i) \<le> Object.addr (objs ! j)) h"
    by (simp_all add: sortedHeap_def)
  have "unat (Object.addr (objs ! (h ! a))) + length (data (objs ! (h ! a)))
          \<le> unat (Object.addr (objs ! (h ! b)))"
    if ab: "a < b" "b < length h" for a b
  proof -
    let ?i = "h ! a" and ?j = "h ! b"
    from ab mem have i: "?i < length objs" and j: "?j < length objs"
      using nth_mem[of a h] nth_mem[of b h] by auto
    from ab dist have ne: "?i \<noteq> ?j" by (simp add: nth_eq_iff_index_eq)
    from ab srt have "Object.addr (objs ! ?i) \<le> Object.addr (objs ! ?j)"
      by (simp add: sorted_wrt_iff_nth_less)
    then have le: "unat (Object.addr (objs ! ?i)) \<le> unat (Object.addr (objs ! ?j))"
      by (simp add: word_le_nat_alt)
    from sp j have pos: "0 < length (data (objs ! ?j))" by (simp add: separate_def)
    from sp i j ne have
      "unat (Object.addr (objs ! ?i)) + length (data (objs ! ?i)) \<le> unat (Object.addr (objs ! ?j)) \<or>
       unat (Object.addr (objs ! ?j)) + length (data (objs ! ?j)) \<le> unat (Object.addr (objs ! ?i))"
      unfolding separate_def by blast
    with le pos show ?thesis by arith
  qed
  then have "sorted_wrt (\<lambda>i j. unat (Object.addr (objs ! i)) + length (data (objs ! i))
                      \<le> unat (Object.addr (objs ! j))) h"
    by (simp add: sorted_wrt_iff_nth_less)
  moreover from sp mem have "\<forall>i\<in>set h. unat (Object.addr (objs ! i)) + length (data (objs ! i)) < 2 ^ 64"
    by (simp add: separate_def)
  ultimately show ?thesis by (simp add: laidOut_def)
qed

subsection \<open>Appending edges\<close>

lemma appendEdge_addEdges: "appendEdge objs x edge = addEdges objs x [edge]"
  by (simp add: appendEdge_def addEdges_def)

lemma addEdges_Nil [simp]: "addEdges objs x [] = objs"
  by (simp add: addEdges_def)

lemma addEdges_beyond: "\<not> x < length objs \<Longrightarrow> addEdges objs x es = objs"
  by (simp add: addEdges_def not_less list_update_beyond)

lemma addEdges_addEdges [simp]: "addEdges (addEdges objs x es) x es' = addEdges objs x (es @ es')"
proof (cases "x < length objs")
  case True
  then show ?thesis by (simp add: addEdges_def)
next
  case False
  then show ?thesis by (simp add: addEdges_beyond)
qed

lemma length_addEdges [simp]: "length (addEdges objs x es) = length objs"
  by (simp add: addEdges_def)

lemma addEdges_cells [simp]:
  "Object.addr (addEdges objs x es ! q) = Object.addr (objs ! q)"
  "data (addEdges objs x es ! q) = data (objs ! q)"
  "typ' (addEdges objs x es ! q) = typ' (objs ! q)"
  "Object.kind (addEdges objs x es ! q) = Object.kind (objs ! q)"
proof -
  show "Object.addr (addEdges objs x es ! q) = Object.addr (objs ! q)"
    by (cases "x < length objs"; cases "q = x") (simp_all add: addEdges_beyond, simp_all add: addEdges_def)
  show "data (addEdges objs x es ! q) = data (objs ! q)"
    by (cases "x < length objs"; cases "q = x") (simp_all add: addEdges_beyond, simp_all add: addEdges_def)
  show "typ' (addEdges objs x es ! q) = typ' (objs ! q)"
    by (cases "x < length objs"; cases "q = x") (simp_all add: addEdges_beyond, simp_all add: addEdges_def)
  show "Object.kind (addEdges objs x es ! q) = Object.kind (objs ! q)"
    by (cases "x < length objs"; cases "q = x") (simp_all add: addEdges_beyond, simp_all add: addEdges_def)
qed

lemma edges_addEdges:
  "x < length objs \<Longrightarrow>
   edges (addEdges objs x es ! q) = (if q = x then edges (objs ! x) @ es else edges (objs ! q))"
  by (simp add: addEdges_def)

lemma Heap_find_addEdges [simp]: "Heap_find (addEdges objs x es) h p = Heap_find objs h p"
  by (simp add: Heap_find_def)

text \<open>What \<open>linkPtr\<close> does, in one equation.\<close>

lemma linkPtr_eq:
  "linkPtr info d objs x off =
     (case readPtrAt d (data (objs ! x)) off of
        Inl err \<Rightarrow> Inl err
      | Inr p \<Rightarrow>
          Inr (addEdges objs x
                 (case Heap_find objs (heap info) p of
                    None \<Rightarrow> []
                  | Some q \<Rightarrow> [\<lparr>to = q, fromoffset = off, tooffset = p - Object.addr (objs ! q)\<rparr>])))"
  by (simp add: linkPtr_def appendEdge_addEdges split: sum.splits option.splits)

subsection \<open>Empty-interface fields\<close>

lemma linkPtr_adds:
  assumes "linkPtr info d objs x off = Inr objs'"
  shows "\<exists>es. objs' = addEdges objs x es"
  using assms by (auto simp: linkPtr_eq split: sum.splits)

lemma all_less_three: "(\<forall>i<(3::nat). P i) \<longleftrightarrow> P 0 \<and> P 1 \<and> P 2"
proof -
  have "i < 3 \<longleftrightarrow> i = 0 \<or> i = 1 \<or> i = 2" for i :: nat by arith
  then show ?thesis by auto
qed

lemma linkField_eface_found:
  assumes "Field.kind f = fieldKindEface"
    and "x < length objs"
    and "readPtrAt d (data (objs ! x)) (base + offset f) = Inr tp"
    and "Heap_find objs (heap info) tp = Some q"
  shows "linkPtr info d objs x (base + offset f) =
           Inr (appendEdge objs x
                  \<lparr>to = q, fromoffset = base + offset f, tooffset = tp - Object.addr (objs ! q)\<rparr>) \<and>
         (\<forall>objs'. linkField info d objs x base f = Inr objs' \<longrightarrow>
            (\<exists>es. edges (objs' ! x) = edges (objs ! x) @
               \<lparr>to = q, fromoffset = base + offset f, tooffset = tp - Object.addr (objs ! q)\<rparr> # es)) \<and>
         (\<forall>t. LinkInfo.types info tp = Some t \<and> \<not> efaceptr t \<longrightarrow>
            linkField info d objs x base f =
              Inr (appendEdge objs x
                  \<lparr>to = q, fromoffset = base + offset f, tooffset = tp - Object.addr (objs ! q)\<rparr>))"
proof -
  let ?off = "base + offset f"
  let ?edge = "\<lparr>to = q, fromoffset = ?off, tooffset = tp - Object.addr (objs ! q)\<rparr>"
  let ?objs1 = "addEdges objs x [?edge]"
  have first: "linkPtr info d objs x ?off = Inr ?objs1"
    using assms(3,4) by (simp add: linkPtr_eq)
  have rd: "readPtrAt d (data (?objs1 ! x)) ?off = Inr tp"
    using assms(3) by simp
  have field: "linkField info d objs x base f =
      (if tp \<noteq> 0 then
         (case LinkInfo.types info tp of
            None \<Rightarrow> Inl (Fatal ''can't find eface type'')
          | Some t \<Rightarrow> if efaceptr t then linkPtr info d ?objs1 x (?off + ptrSize d) else Inr ?objs1)
       else Inr ?objs1)"
    using assms(1) first rd by (simp add: linkField_def Let_def)
  have every: "\<exists>es. edges (objs' ! x) = edges (objs ! x) @ ?edge # es"
    if r: "linkField info d objs x base f = Inr objs'" for objs'
  proof -
    define objs1 where "objs1 = ?objs1"
    from r[unfolded field] have "objs' = objs1 \<or> linkPtr info d objs1 x (?off + ptrSize d) = Inr objs'"
      unfolding objs1_def[symmetric] by (auto split: if_splits option.splits)
    then obtain es where "objs' = addEdges objs1 x es"
      using linkPtr_adds[of info d objs1 x "?off + ptrSize d" objs'] addEdges_Nil[of objs1 x]
      by metis
    then have "objs' = addEdges objs x (?edge # es)"
      by (simp add: objs1_def)
    then show ?thesis using assms(2) by (simp add: edges_addEdges)
  qed
  have scalar: "linkField info d objs x base f = Inr ?objs1"
    if "LinkInfo.types info tp = Some t \<and> \<not> efaceptr t" for t
    using that by (simp add: field)
  show ?thesis
    unfolding appendEdge_addEdges
  proof (intro conjI allI impI)
    show "linkPtr info d objs x ?off = Inr ?objs1" by (rule first)
    show "\<exists>es. edges (objs' ! x) = edges (objs ! x) @ ?edge # es"
      if "linkField info d objs x base f = Inr objs'" for objs'
      using that by (rule every)
    show "linkField info d objs x base f = Inr ?objs1"
      if "LinkInfo.types info tp = Some t \<and> \<not> efaceptr t" for t
      using that by (rule scalar)
  qed
qed

text \<open>
  The layout is needed for the lookup: the heap \<open>[0, 1]\<close> of the two overlapping objects is
  in the order of the addresses, and the address \<open>0x1050\<close> lies inside the first object, but
  the binary search passes it by.
\<close>

lemma overlapping_heap_miss:
  "sortedHeap overlapping_objects [0, 1] \<and> inside overlapping_objects 0 0x1050 \<and>
   \<not> laidOut overlapping_objects [0, 1] \<and>
   Heap_find overlapping_objects [0, 1] 0x1050 = None"
proof -
  have "length overlapping_objects = 2" by (simp add: overlapping_objects_def)
  then have "sortedHeap overlapping_objects [0, 1]"
    unfolding sortedHeap_def by (auto simp: overlapping_objects_def)
  moreover have "inside overlapping_objects 0 0x1050"
    by (simp add: inside_def overlapping_objects_def)
  moreover have "\<not> laidOut overlapping_objects [0, 1]"
    by (simp add: laidOut_def overlapping_objects_def)
  moreover have "Heap_find overlapping_objects [0, 1] 0x1050 = None"
    by code_simp
  ultimately show ?thesis by blast
qed

text \<open>
  C10. Let the heap be laid out (the objects in the order of their addresses, none
  reaching into the next or to the end of the address space), and let the type word \<open>tp\<close> of an eface field at
  \<open>off = base + offset\<close> lie inside the heap object \<open>q\<close>. Then the first thing \<open>linkFields\<close>
  does is the ordinary pointer link at \<open>off\<close>: it appends the edge to \<open>q\<close> with
  \<open>fromoffset = off\<close>. Only then is the type looked up, so whatever \<open>efaceptr\<close> says, every
  result of the field step has that edge right after the edges the object had before.
  (By \<open>sortedHeap_laidOut\<close> the heap that \<open>sort.Sort\<close> leaves is laid out when the objects
  are not empty and do not overlap.)
\<close>

theorem eface_type_word_linked_first:
  assumes "Field.kind f = fieldKindEface"
    and "x < length objs"
    and "readPtrAt d (data (objs ! x)) (base + offset f) = Inr tp"
    and "laidOut objs (heap info)"
    and "q \<in> set (heap info)"
    and "inside objs q tp"
  shows "linkPtr info d objs x (base + offset f) =
           Inr (appendEdge objs x
                  \<lparr>to = q, fromoffset = base + offset f, tooffset = tp - Object.addr (objs ! q)\<rparr>) \<and>
         (\<forall>objs'. linkField info d objs x base f = Inr objs' \<longrightarrow>
            (\<exists>es. edges (objs' ! x) = edges (objs ! x) @
               \<lparr>to = q, fromoffset = base + offset f, tooffset = tp - Object.addr (objs ! q)\<rparr> # es)) \<and>
         (\<forall>t. LinkInfo.types info tp = Some t \<and> \<not> efaceptr t \<longrightarrow>
            linkField info d objs x base f =
              Inr (appendEdge objs x
                  \<lparr>to = q, fromoffset = base + offset f, tooffset = tp - Object.addr (objs ! q)\<rparr>))"
  using linkField_eface_found[OF assms(1,2,3) Heap_find_inside[OF assms(4,5,6)]] .


theorem eface_type_word_linked_first_witness:
  "Field.kind eface_field = fieldKindEface \<and>
   (0::nat) < length middle_objects \<and>
   readPtrAt middle_dump (data (middle_objects ! 0)) (0 + offset eface_field) = Inr 0x2004 \<and>
   laidOut middle_objects (heap (linkInfo [1, 2, 0] [] middle_dump)) \<and>
   sortedHeap middle_objects (heap (linkInfo [1, 2, 0] [] middle_dump)) \<and>
   separate middle_objects \<and>
   (2::nat) \<in> set (heap (linkInfo [1, 2, 0] [] middle_dump)) \<and>
   inside middle_objects 2 0x2004 \<and>
   linkPtr (linkInfo [1, 2, 0] [] middle_dump) middle_dump middle_objects 0 (0 + offset eface_field) =
     Inr (appendEdge middle_objects 0
            \<lparr>to = 2, fromoffset = 0 + offset eface_field,
              tooffset = 0x2004 - Object.addr (middle_objects ! 2)\<rparr>) \<and>
   linkField (linkInfo [1, 2, 0] [] middle_dump) middle_dump middle_objects 0 0 eface_field =
     Inr (appendEdge middle_objects 0
            \<lparr>to = 2, fromoffset = 0 + offset eface_field,
              tooffset = 0x2004 - Object.addr (middle_objects ! 2)\<rparr>) \<and>
   0x2004 - Object.addr (middle_objects ! 2) = 4"
proof -
  have hp: "heap (linkInfo [1, 2, 0] [] middle_dump) = [1, 2, 0]" by (simp add: linkInfo_def)
  have len: "length middle_objects = 3" by (simp add: middle_objects_def)
  have a: "Field.kind eface_field = fieldKindEface" by code_simp
  have l: "(0::nat) < length middle_objects" by (simp add: len)
  have b: "readPtrAt middle_dump (data (middle_objects ! 0)) (0 + offset eface_field) = Inr 0x2004"
    by code_simp
  have sh: "sortedHeap middle_objects (heap (linkInfo [1, 2, 0] [] middle_dump))"
    unfolding hp sortedHeap_def len by (auto simp: middle_objects_def)
  have sp: "separate middle_objects"
    unfolding separate_def len all_less_three by (simp add: middle_objects_def)
  have lo: "laidOut middle_objects (heap (linkInfo [1, 2, 0] [] middle_dump))"
    unfolding hp by (simp add: laidOut_def middle_objects_def)
  have m: "(2::nat) \<in> set (heap (linkInfo [1, 2, 0] [] middle_dump))"
    unfolding hp by simp
  have i: "inside middle_objects 2 0x2004"
    by (simp add: inside_def middle_objects_def)
  have c: "LinkInfo.types (linkInfo [1, 2, 0] [] middle_dump) 0x2004 = Some inner_type \<and> \<not> efaceptr inner_type"
    by code_simp
  have o: "0x2004 - Object.addr (middle_objects ! 2) = 4"
    by (simp add: middle_objects_def)
  from eface_type_word_linked_first[OF a l b lo m i] c a l b sh sp lo m i o show ?thesis
    by blast
qed

text \<open>
  C5 as stated fails: the eface field of object 0 has a type word naming a type with
  \<open>efaceptr = false\<close>, and \<open>link\<close> gives the object an edge for that field, the edge of the
  type word to object 1.
\<close>

theorem eface_scalar_counterexample:
  "typesMap (Dump.types eface_dump) 0x2000 = Some scalar_type \<and> \<not> efaceptr scalar_type \<and>
   map_option (map_sum id (\<lambda>d'. map edges (Dump.objects d'))) (link [0, 1] [] eface_dump)
     = Some (Inr [[\<lparr>to = 1, fromoffset = 0, tooffset = 0\<rparr>], []])"
  by code_simp

text \<open>
  C5, as amended. For an eface field whose type word \<open>tp\<close> names a type with
  \<open>efaceptr = false\<close>, the field step is exactly the pointer link of the type word at
  \<open>off\<close>: the data word at \<open>off + ptrSize\<close> is not looked at and gives no edge, and the one
  edge the field can give is the edge for the type word itself, when \<open>tp\<close> lies in a heap
  object.
\<close>

theorem eface_scalar_no_data_edge:
  assumes "Field.kind f = fieldKindEface"
    and "readPtrAt d (data (objs ! x)) (base + offset f) = Inr tp"
    and "LinkInfo.types info tp = Some t"
    and "\<not> efaceptr t"
  shows "linkField info d objs x base f =
           Inr (case Heap_find objs (heap info) tp of
                  None \<Rightarrow> objs
                | Some q \<Rightarrow>
                    appendEdge objs x
                      \<lparr>to = q, fromoffset = base + offset f, tooffset = tp - Object.addr (objs ! q)\<rparr>)"
proof -
  let ?off = "base + offset f"
  define es where "es = (case Heap_find objs (heap info) tp of
                    None \<Rightarrow> []
                  | Some q \<Rightarrow> [\<lparr>to = q, fromoffset = ?off, tooffset = tp - Object.addr (objs ! q)\<rparr>])"
  have first: "linkPtr info d objs x ?off = Inr (addEdges objs x es)"
    using assms(2) by (simp add: linkPtr_eq es_def)
  have rd: "readPtrAt d (data (addEdges objs x es ! x)) ?off = Inr tp"
    using assms(2) by simp
  have "linkField info d objs x base f = Inr (addEdges objs x es)"
    using assms(1,3,4) first rd by (simp add: linkField_def Let_def)
  then show ?thesis
    by (simp add: es_def appendEdge_addEdges split: option.splits)
qed

theorem eface_scalar_no_data_edge_witness:
  "Field.kind eface_field = fieldKindEface \<and>
   readPtrAt eface_dump (data (eface_objects ! 0)) (0 + offset eface_field) = Inr 0x2000 \<and>
   LinkInfo.types (linkInfo [0, 1] [] eface_dump) 0x2000 = Some scalar_type \<and>
   \<not> efaceptr scalar_type \<and>
   linkField (linkInfo [0, 1] [] eface_dump) eface_dump eface_objects 0 0 eface_field =
     Inr (appendEdge eface_objects 0 \<lparr>to = 1, fromoffset = 0, tooffset = 0\<rparr>)"
proof -
  have a: "Field.kind eface_field = fieldKindEface" by code_simp
  have b: "readPtrAt eface_dump (data (eface_objects ! 0)) (0 + offset eface_field) = Inr 0x2000"
    by code_simp
  have c: "LinkInfo.types (linkInfo [0, 1] [] eface_dump) 0x2000 = Some scalar_type"
    by code_simp
  have d: "\<not> efaceptr scalar_type" by code_simp
  have h: "Heap_find eface_objects (heap (linkInfo [0, 1] [] eface_dump)) 0x2000 = Some 1"
    by code_simp
  have o: "0 + offset eface_field = 0" "0x2000 - Object.addr (eface_objects ! 1) = 0"
    by code_simp+
  note r = eface_scalar_no_data_edge[OF a b c d, unfolded h option.case o]
  from r a b c d show ?thesis
    by blast
qed

subsection \<open>Finalizers\<close>

text \<open>
  C1, which the code does not meet. Both the finalized address \<open>0x1000\<close> and the target
  \<open>0x200c\<close> resolve, to the objects 0 and 1. The edge that \<open>link\<close> appends to object 0
  has \<open>tooffset = 0x200c - 0x2000 = 12\<close>, the offset inside object 1, but its destination
  \<open>to\<close> is object 0 itself.
\<close>

theorem finalizer_edge_points_to_finalized_object:
  "sortedHeap (Dump.objects finalizer_dump) [0, 1] \<and>
   Heap_find (Dump.objects finalizer_dump) [0, 1] 0x1000 = Some 0 \<and>
   Heap_find (Dump.objects finalizer_dump) [0, 1] 0x200c = Some 1 \<and>
   map_option (map_sum id (\<lambda>d'. map edges (Dump.objects d'))) (link [0, 1] [] finalizer_dump)
     = Some (Inr [[\<lparr>to = 0, fromoffset = 0, tooffset = 12\<rparr>], []])"
  by code_simp

text \<open>
  C2, which the code does not meet. After \<open>link\<close>, object 0 of the same dump holds an edge
  to object 0 with \<open>tooffset = 12\<close>, and the payload of object 0 has 8 bytes.
\<close>

theorem finalizer_edge_tooffset_out_of_range:
  "map_option (map_sum id (\<lambda>d'. map (\<lambda>x. (length (data x), edges x)) (Dump.objects d')))
     (link [0, 1] [] finalizer_dump)
     = Some (Inr [(8, [\<lparr>to = 0, fromoffset = 0, tooffset = 12\<rparr>]), (16, [])])"
  by code_simp

subsection \<open>The passes over arrays and channels\<close>

lemma unat_limit:
  fixes sz :: u64
  assumes "unat sz \<le> n" "n < 2 ^ 64"
  shows "unat (of_nat n - sz) = n - unat sz"
proof -
  have n: "unat (of_nat n :: u64) = n" using assms(2) by (simp add: unat_of_nat64)
  then have "sz \<le> of_nat n" using assms(1) by (simp add: word_le_nat_alt)
  then show ?thesis using n by (simp add: unat_sub)
qed

lemma linkPasses_spec:
  assumes "0 < unat sz" "unat sz \<le> n" "n < 2 ^ 64" "i < 2 ^ 64"
  shows "linkPasses info d x fs sz (of_nat n - sz) objs (of_nat i) =
           Some (passesAt info d x fs objs (map of_nat (spec_pass_offsets i (unat sz) n)))"
  using assms
proof (induction i "unat sz" n arbitrary: objs rule: spec_pass_offsets.induct)
  case (1 i len)
  note pos = "1.prems"(1) and szle = "1.prems"(2) and lenlt = "1.prems"(3) and ilt = "1.prems"(4)
  have ui: "unat (of_nat i :: u64) = i" using ilt by (simp add: unat_of_nat64)
  have le: "(of_nat i :: u64) \<le> of_nat len - sz \<longleftrightarrow> i + unat sz \<le> len"
    using szle unfolding word_le_nat_alt ui unat_limit[OF szle lenlt] by arith
  show ?case
  proof (cases "i + unat sz \<le> len")
    case True
    have next_i: "(of_nat i :: u64) + sz = of_nat (i + unat sz)" by simp
    have lt: "i + unat sz < 2 ^ 64" using True lenlt by simp
    have sp: "spec_pass_offsets i (unat sz) len = i # spec_pass_offsets (i + unat sz) (unat sz) len"
      using True pos by (subst spec_pass_offsets.simps) simp
    show ?thesis
    proof (cases "linkFields info d objs x fs (of_nat i)")
      case (Inl err)
      then show ?thesis
        using True le by (subst linkPasses.simps) (simp add: sp)
    next
      case (Inr objs')
      from "1.hyps"[of objs'] True pos szle lenlt lt
      have "linkPasses info d x fs sz (of_nat len - sz) objs' (of_nat (i + unat sz)) =
          Some (passesAt info d x fs objs' (map of_nat (spec_pass_offsets (i + unat sz) (unat sz) len)))"
        by simp
      then show ?thesis
        using True le Inr by (subst linkPasses.simps) (simp add: sp next_i del: of_nat_add)
    qed
  next
    case False
    then have "spec_pass_offsets i (unat sz) len = []"
      by (subst spec_pass_offsets.simps) simp
    then show ?thesis
      using False le by (subst linkPasses.simps) simp
  qed
qed

lemma spec_pass_offsets_range:
  "p \<in> set (spec_pass_offsets i sz len) \<Longrightarrow> i \<le> p \<and> p + sz \<le> len"
proof (induction i sz len rule: spec_pass_offsets.induct)
  case (1 i sz len)
  show ?case
  proof (cases "0 < sz \<and> i + sz \<le> len")
    case True
    then have "spec_pass_offsets i sz len = i # spec_pass_offsets (i + sz) sz len"
      by (subst spec_pass_offsets.simps) simp
    with "1.prems" have "p = i \<or> p \<in> set (spec_pass_offsets (i + sz) sz len)" by simp
    then show ?thesis using "1.IH"[OF True] True by auto
  next
    case False
    then have "spec_pass_offsets i sz len = []" by (subst spec_pass_offsets.simps) simp
    with "1.prems" show ?thesis by simp
  qed
qed

subsection \<open>What field scanning reads and what it appends\<close>

lemma readPtrAt_len:
  assumes "readPtrAt d b off = Inr p"
  shows "unat off + unat (ptrSize d) \<le> length b"
proof -
  from assms have o: "unat off \<le> length b" and r: "readPtr d (drop (unat off) b) = Inr p"
    by (auto simp: readPtrAt_def sliceFrom_def split: if_splits)
  from r have "unat (ptrSize d) \<le> length (drop (unat off) b)"
    by (auto simp: readPtr_def split: if_splits)
  with o show ?thesis by simp
qed

lemma readPtrAt_agree:
  assumes "length b' = length b" "drop k b' = drop k b" "k \<le> unat off"
  shows "readPtrAt d b' off = readPtrAt d b off"
proof -
  have "drop (unat off) b' = drop (unat off - k) (drop k b')" using assms(3) by simp
  also have "\<dots> = drop (unat off) b" using assms(2,3) by simp
  finally show ?thesis using assms(1) by (simp add: readPtrAt_def sliceFrom_def)
qed

lemma withData_beyond: "\<not> x < length objs \<Longrightarrow> withData objs x b = objs"
  by (simp add: withData_def not_less list_update_beyond)

lemma length_withData [simp]: "length (withData objs x b) = length objs"
  by (simp add: withData_def)

lemma withData_addr [simp]: "Object.addr (withData objs x b ! q) = Object.addr (objs ! q)"
  by (cases "x < length objs"; cases "q = x") (simp_all add: withData_beyond, simp_all add: withData_def)

lemma withData_data:
  "x < length objs \<Longrightarrow> data (withData objs x b ! q) = (if q = x then b else data (objs ! q))"
  by (simp add: withData_def)

lemma Heap_find_withData:
  assumes "length b = length (data (objs ! x))"
  shows "Heap_find (withData objs x b) h p = Heap_find objs h p"
proof -
  have "length (data (withData objs x b ! q)) = length (data (objs ! q))" for q
    using assms
    by (cases "x < length objs"; cases "q = x") (simp_all add: withData_beyond, simp_all add: withData_def)
  then show ?thesis by (simp add: Heap_find_def)
qed

lemma addEdges_withData:
  "addEdges (withData objs x b) x es = withData (addEdges objs x es) x b"
proof (cases "x < length objs")
  case True
  have sw: "(r\<lparr>data := b\<rparr>)\<lparr>edges := edges r @ es\<rparr> = (r\<lparr>edges := edges r @ es\<rparr>)\<lparr>data := b\<rparr>"
    for r :: Object by (cases r) simp
  from True have "addEdges (withData objs x b) x es
      = objs[x := ((objs ! x)\<lparr>data := b\<rparr>)\<lparr>edges := edges (objs ! x) @ es\<rparr>]"
    by (simp add: addEdges_def withData_def)
  also have "\<dots> = objs[x := ((objs ! x)\<lparr>edges := edges (objs ! x) @ es\<rparr>)\<lparr>data := b\<rparr>]"
    by (subst sw) (rule refl)
  also from True have "\<dots> = withData (addEdges objs x es) x b"
    by (simp add: addEdges_def withData_def)
  finally show ?thesis .
next
  case False
  then show ?thesis by (simp add: addEdges_beyond withData_beyond)
qed

text \<open>
  The stores \<open>objs\<close> and \<open>withData objs x b\<close> give the same pointer link at \<open>off\<close> when the
  two payloads agree from \<open>k\<close> on and \<open>off\<close> is not below \<open>k\<close>.
\<close>

lemma linkPtr_withData:
  assumes "x < length objs" "length b = length (data (objs ! x))"
    and "drop k b = drop k (data (objs ! x))" "k \<le> unat off"
  shows "linkPtr info d (withData objs x b) x off =
           map_sum id (\<lambda>os. withData os x b) (linkPtr info d objs x off)"
proof -
  have rd: "readPtrAt d (data (withData objs x b ! x)) off = readPtrAt d (data (objs ! x)) off"
    using assms by (simp add: withData_data readPtrAt_agree[of b "data (objs ! x)" k])
  show ?thesis
    unfolding linkPtr_eq rd Heap_find_withData[OF assms(2)]
    by (simp add: addEdges_withData split: sum.splits option.splits)
qed

lemma linkPtr_adds_at:
  assumes "linkPtr info d objs x off = Inr objs'"
  shows "\<exists>es. objs' = addEdges objs x es \<and> (\<forall>edge\<in>set es. fromoffset edge = off)"
proof -
  from assms[unfolded linkPtr_eq] obtain p where
    o: "objs' = addEdges objs x
          (case Heap_find objs (heap info) p of
             None \<Rightarrow> []
           | Some q \<Rightarrow> [\<lparr>to = q, fromoffset = off, tooffset = p - Object.addr (objs ! q)\<rparr>])"
    by (cases "readPtrAt d (data (objs ! x)) off") auto
  have "\<forall>edge\<in>set (case Heap_find objs (heap info) p of
             None \<Rightarrow> []
           | Some q \<Rightarrow> [\<lparr>to = q, fromoffset = off, tooffset = p - Object.addr (objs ! q)\<rparr>]).
          fromoffset edge = off"
    by (cases "Heap_find objs (heap info) p") simp_all
  with o show ?thesis by blast
qed

lemma linkPtr_read:
  assumes "linkPtr info d objs x off = Inr objs'"
  shows "\<exists>p. readPtrAt d (data (objs ! x)) off = Inr p"
  using assms by (auto simp: linkPtr_eq split: sum.splits)

lemma linkField_eq:
  "linkField info d objs x base f =
     (if Field.kind f = fieldKindPtr \<or> Field.kind f = fieldKindString \<or> Field.kind f = fieldKindSlice
      then linkPtr info d objs x (base + offset f)
      else if Field.kind f = fieldKindEface then
        (case linkPtr info d objs x (base + offset f) of
           Inl err \<Rightarrow> Inl err
         | Inr objs1 \<Rightarrow>
             (case readPtrAt d (data (objs ! x)) (base + offset f) of
                Inl err \<Rightarrow> Inl err
              | Inr tp \<Rightarrow>
                  dataWord info d objs1 x (base + offset f)
                    (map_option efaceptr (LinkInfo.types info tp)) ''can't find eface type'' tp))
      else if Field.kind f = fieldKindIface then
        (case readPtrAt d (data (objs ! x)) (base + offset f) of
           Inl err \<Rightarrow> Inl err
         | Inr tp \<Rightarrow>
             dataWord info d objs x (base + offset f)
               (map_option ptr (LinkInfo.itabs info tp)) ''can't find iface tab'' tp)
      else Inr objs)"
proof -
  have "readPtrAt d (data (objs1 ! x)) off = readPtrAt d (data (objs ! x)) off"
    if "linkPtr info d objs x off = Inr objs1" for objs1 off
    using linkPtr_adds_at[OF that] by auto
  then show ?thesis
    by (auto simp: linkField_def Let_def dataWord_def split: sum.splits option.splits)
qed

lemma dataWord_adds:
  assumes "dataWord info d objs x off flag msg tp = Inr objs'"
  shows "\<exists>es. objs' = addEdges objs x es \<and> (\<forall>edge\<in>set es. fromoffset edge = off + ptrSize d)"
proof -
  have "objs' = objs \<or> linkPtr info d objs x (off + ptrSize d) = Inr objs'"
  proof (cases "tp = 0")
    case True
    with assms show ?thesis by (simp add: dataWord_def)
  next
    case False
    show ?thesis
    proof (cases flag)
      case None
      with False assms show ?thesis by (simp add: dataWord_def)
    next
      case (Some isptr)
      with False assms show ?thesis by (cases isptr) (simp_all add: dataWord_def)
    qed
  qed
  then consider "objs' = objs" | "linkPtr info d objs x (off + ptrSize d) = Inr objs'"
    by blast
  then show ?thesis
  proof cases
    case 1
    then have "objs' = addEdges objs x []" by simp
    then show ?thesis by (intro exI[of _ "[]"]) simp
  next
    case 2
    from linkPtr_adds_at[OF 2] show ?thesis .
  qed
qed

lemma linkField_adds:
  assumes "linkField info d objs x base f = Inr objs'"
  shows "\<exists>es1 es2. objs' = addEdges objs x (es1 @ es2) \<and>
           (\<forall>edge\<in>set es1. fromoffset edge = base + offset f) \<and>
           (\<forall>edge\<in>set es2. fromoffset edge = base + offset f + ptrSize d) \<and>
           (es2 \<noteq> [] \<longrightarrow> unat (base + offset f) + unat (ptrSize d) \<le> length (data (objs ! x)))"
proof -
  let ?off = "base + offset f"
  note r = assms[unfolded linkField_eq]
  consider (ptr) "Field.kind f = fieldKindPtr \<or> Field.kind f = fieldKindString \<or> Field.kind f = fieldKindSlice"
    | (eface) "Field.kind f = fieldKindEface"
    | (iface) "Field.kind f = fieldKindIface"
    | (other) "\<not> (Field.kind f = fieldKindPtr \<or> Field.kind f = fieldKindString \<or> Field.kind f = fieldKindSlice)"
        "Field.kind f \<noteq> fieldKindEface" "Field.kind f \<noteq> fieldKindIface"
    by blast
  then show ?thesis
  proof cases
    case ptr
    with r have "linkPtr info d objs x ?off = Inr objs'" by simp
    from linkPtr_adds_at[OF this] obtain es where
      "objs' = addEdges objs x es" "\<forall>edge\<in>set es. fromoffset edge = ?off" by blast
    then show ?thesis by (intro exI[of _ es] exI[of _ "[]"]) simp
  next
    case eface
    with r obtain objs1 tp where
      a: "linkPtr info d objs x ?off = Inr objs1" and
      b: "readPtrAt d (data (objs ! x)) ?off = Inr tp" and
      c: "dataWord info d objs1 x ?off (map_option efaceptr (LinkInfo.types info tp))
            ''can't find eface type'' tp = Inr objs'"
      by (auto split: sum.splits)
    from linkPtr_adds_at[OF a] obtain es1 where
      e1: "objs1 = addEdges objs x es1" "\<forall>edge\<in>set es1. fromoffset edge = ?off" by blast
    from dataWord_adds[OF c] obtain es2 where
      e2: "objs' = addEdges objs1 x es2" "\<forall>edge\<in>set es2. fromoffset edge = ?off + ptrSize d" by blast
    from e1 e2 have "objs' = addEdges objs x (es1 @ es2)" by simp
    with e1 e2 readPtrAt_len[OF b] show ?thesis
      by (intro exI[of _ es1] exI[of _ es2]) simp
  next
    case iface
    with r obtain tp where
      b: "readPtrAt d (data (objs ! x)) ?off = Inr tp" and
      c: "dataWord info d objs x ?off (map_option ptr (LinkInfo.itabs info tp))
            ''can't find iface tab'' tp = Inr objs'"
      by (auto split: sum.splits)
    from dataWord_adds[OF c] obtain es2 where
      e2: "objs' = addEdges objs x es2" "\<forall>edge\<in>set es2. fromoffset edge = ?off + ptrSize d" by blast
    with readPtrAt_len[OF b] show ?thesis
      by (intro exI[of _ "[]"] exI[of _ es2]) simp
  next
    case other
    with r have "objs' = objs" by simp
    then show ?thesis by (intro exI[of _ "[]"]) simp
  qed
qed

lemma dataWord_withData:
  assumes "x < length objs" "length b = length (data (objs ! x))"
    and "drop k b = drop k (data (objs ! x))" "k \<le> unat (off + ptrSize d)"
  shows "dataWord info d (withData objs x b) x off flag msg tp =
           map_sum id (\<lambda>os. withData os x b) (dataWord info d objs x off flag msg tp)"
proof (cases "tp = 0")
  case True
  then show ?thesis by (simp add: dataWord_def)
next
  case False
  show ?thesis
  proof (cases flag)
    case None
    with False show ?thesis by (simp add: dataWord_def)
  next
    case (Some isptr)
    with False linkPtr_withData[OF assms, of info] show ?thesis
      by (cases isptr) (simp_all add: dataWord_def)
  qed
qed

lemma linkField_withData:
  assumes x: "x < length objs" and len: "length b = length (data (objs ! x))"
    and agree: "drop k b = drop k (data (objs ! x))"
    and k: "k \<le> unat base"
    and nowrap: "unat base + unat (offset f) < 2 ^ 64"
    and short: "length (data (objs ! x)) < 2 ^ 64"
  shows "linkField info d (withData objs x b) x base f =
           map_sum id (\<lambda>os. withData os x b) (linkField info d objs x base f)"
proof -
  let ?off = "base + offset f"
  let ?wd = "\<lambda>os. withData os x b"
  have off: "k \<le> unat ?off" using k nowrap by (simp add: unat_plus64)
  have p1: "linkPtr info d (withData objs x b) x ?off = map_sum id ?wd (linkPtr info d objs x ?off)"
    by (rule linkPtr_withData[OF x len agree off])
  have rd: "readPtrAt d (data (withData objs x b ! x)) ?off = readPtrAt d (data (objs ! x)) ?off"
    using x len agree off by (simp add: withData_data readPtrAt_agree[of b "data (objs ! x)" k])
  have off2: "k \<le> unat (?off + ptrSize d)"
    if "readPtrAt d (data (objs ! x)) ?off = Inr tp" for tp
  proof -
    from readPtrAt_len[OF that] short have "unat ?off + unat (ptrSize d) < 2 ^ 64" by simp
    then show ?thesis using off by (simp add: unat_plus64)
  qed
  have dw: "dataWord info d (withData os x b) x ?off flag msg tp =
              map_sum id ?wd (dataWord info d os x ?off flag msg tp)"
    if "readPtrAt d (data (objs ! x)) ?off = Inr tp" "os = addEdges objs x es" for os es flag msg tp
    using that(2) x len agree off2[OF that(1)]
    by (intro dataWord_withData[of x os b k]) simp_all
  show ?thesis
  proof (cases "Field.kind f = fieldKindPtr \<or> Field.kind f = fieldKindString \<or> Field.kind f = fieldKindSlice")
    case True
    then show ?thesis unfolding linkField_eq rd using p1 by simp
  next
    case notptr: False
    show ?thesis
    proof (cases "readPtrAt d (data (objs ! x)) ?off")
      case (Inl err)
      then have "linkPtr info d objs x ?off = Inl err" by (simp add: linkPtr_eq)
      with Inl notptr show ?thesis unfolding linkField_eq rd p1 by simp
    next
      case (Inr tp)
      then obtain objs1 where l: "linkPtr info d objs x ?off = Inr objs1"
        by (auto simp: linkPtr_eq)
      from linkPtr_adds_at[OF l] obtain es where o1: "objs1 = addEdges objs x es" by blast
      have "dataWord info d (withData objs x b) x ?off flag msg tp =
              map_sum id ?wd (dataWord info d objs x ?off flag msg tp)" for flag msg
        using dw[OF Inr, of objs "[]"] by simp
      moreover have "dataWord info d (withData objs1 x b) x ?off flag msg tp =
              map_sum id ?wd (dataWord info d objs1 x ?off flag msg tp)" for flag msg
        using dw[OF Inr o1] .
      ultimately show ?thesis
        unfolding linkField_eq rd p1 using Inr l notptr by simp
    qed
  qed
qed

lemma linkFields_withData:
  assumes "x < length objs" "length b = length (data (objs ! x))"
    and "drop k b = drop k (data (objs ! x))"
    and "k \<le> unat base"
    and "\<forall>f\<in>set fs. unat base + unat (offset f) < 2 ^ 64"
    and "length (data (objs ! x)) < 2 ^ 64"
  shows "linkFields info d (withData objs x b) x fs base =
           map_sum id (\<lambda>os. withData os x b) (linkFields info d objs x fs base)"
  using assms
proof (induction fs arbitrary: objs)
  case Nil
  then show ?case by simp
next
  case (Cons f fs)
  have step: "linkField info d (withData objs x b) x base f =
      map_sum id (\<lambda>os. withData os x b) (linkField info d objs x base f)"
    using Cons.prems by (intro linkField_withData[of x objs b k]) simp_all
  show ?case
  proof (cases "linkField info d objs x base f")
    case (Inl err)
    with step show ?thesis by simp
  next
    case (Inr objs')
    from linkField_adds[OF Inr] obtain es where o: "objs' = addEdges objs x es" by blast
    have "linkFields info d (withData objs' x b) x fs base =
        map_sum id (\<lambda>os. withData os x b) (linkFields info d objs' x fs base)"
      using Cons.prems o by (intro Cons.IH) simp_all
    with step Inr show ?thesis by (simp add: id_def)
  qed
qed

lemma linkFields_adds:
  "linkFields info d objs x fs base = Inr objs' \<Longrightarrow> \<exists>es. objs' = addEdges objs x es"
proof (induction fs arbitrary: objs)
  case Nil
  then have "objs' = addEdges objs x []" by simp
  then show ?case by blast
next
  case (Cons f fs)
  from Cons.prems obtain objs1 where
    a: "linkField info d objs x base f = Inr objs1" and b: "linkFields info d objs1 x fs base = Inr objs'"
    by (auto split: sum.splits)
  from linkField_adds[OF a] obtain es1 where "objs1 = addEdges objs x es1" by blast
  moreover from Cons.IH[OF b] obtain es2 where "objs' = addEdges objs1 x es2" by blast
  ultimately have "objs' = addEdges objs x (es1 @ es2)" by simp
  then show ?case by blast
qed

lemma passesAt_withData:
  assumes "x < length objs" "length b = length (data (objs ! x))"
    and "drop k b = drop k (data (objs ! x))"
    and "\<forall>i\<in>set ps. k \<le> unat i \<and> (\<forall>f\<in>set fs. unat i + unat (offset f) < 2 ^ 64)"
    and "length (data (objs ! x)) < 2 ^ 64"
  shows "passesAt info d x fs (withData objs x b) ps =
           map_sum id (\<lambda>os. withData os x b) (passesAt info d x fs objs ps)"
  using assms
proof (induction ps arbitrary: objs)
  case Nil
  then show ?case by simp
next
  case (Cons i ps)
  have step: "linkFields info d (withData objs x b) x fs i =
      map_sum id (\<lambda>os. withData os x b) (linkFields info d objs x fs i)"
    using Cons.prems by (intro linkFields_withData[of x objs b k]) simp_all
  show ?case
  proof (cases "linkFields info d objs x fs i")
    case (Inl err)
    with step show ?thesis by simp
  next
    case (Inr objs')
    from linkFields_adds[OF Inr] obtain es where o: "objs' = addEdges objs x es" by blast
    have "passesAt info d x fs (withData objs' x b) ps =
        map_sum id (\<lambda>os. withData os x b) (passesAt info d x fs objs' ps)"
      using Cons.prems o by (intro Cons.IH) simp_all
    with step Inr show ?thesis by (simp add: id_def)
  qed
qed

text \<open>With a size of 0 and no fields the passes stay at the same offset and never end.\<close>

lemma linkPasses_zero_Some:
  assumes "linkPasses info d x fs sz limit objs i = Some r"
  shows "\<not> (fs = [] \<and> sz = 0 \<and> i \<le> limit)"
proof -
  note ind = linkPasses.raw_induct[where xa = "(((((((info, d), x), fs), sz), limit), objs), i)"
      and P = "\<lambda>info d x fs sz limit objs i r. \<not> (fs = [] \<and> sz = 0 \<and> i \<le> limit)",
      unfolded prod.case]
  show ?thesis
  proof (rule ind[OF _ assms])
    fix loop :: "LinkInfo \<Rightarrow> Dump \<Rightarrow> nat \<Rightarrow> Field list \<Rightarrow> u64 \<Rightarrow> u64 \<Rightarrow> Object list \<Rightarrow> u64
        \<Rightarrow> (error + Object list) option"
    fix info d x fs sz limit objs i r
    assume hyps: "\<And>info d x fs sz limit objs i r. loop info d x fs sz limit objs i = Some r \<Longrightarrow>
        \<not> (fs = [] \<and> sz = 0 \<and> i \<le> limit)"
    assume prems: "(if i \<le> limit
      then case linkFields info d objs x fs i of Inl err \<Rightarrow> Some (Inl err)
           | Inr objs' \<Rightarrow> loop info d x fs sz limit objs' (i + sz)
      else Some (Inr objs)) = Some r"
    show "\<not> (fs = [] \<and> sz = 0 \<and> i \<le> limit)"
    proof
      assume z: "fs = [] \<and> sz = 0 \<and> i \<le> limit"
      with prems have "loop info d x [] 0 limit objs i = Some r" by simp
      from hyps[OF this] z show False by simp
    qed
  qed
qed

lemma linkPasses_zero:
  "linkPasses info d x [] 0 limit objs i = (if i \<le> limit then None else Some (Inr objs))"
proof (cases "i \<le> limit")
  case True
  have "linkPasses info d x [] 0 limit objs i = None"
  proof (cases "linkPasses info d x [] 0 limit objs i")
    case None
    then show ?thesis .
  next
    case (Some r)
    from linkPasses_zero_Some[OF Some] True show ?thesis by simp
  qed
  with True show ?thesis by simp
next
  case False
  then show ?thesis by (subst linkPasses.simps) simp
qed

text \<open>
  C8. Let \<open>x\<close> be a typed object that keeps the invariant of the data model: its payload
  is not shorter than the size of its type. If \<open>x\<close> is an array, field scanning is one
  pass of \<open>linkFields\<close> at each of the offsets \<open>0, size, 2 * size, ...\<close> with
  \<open>i + size \<le> len(payload)\<close>, in this order, and stops at the first pass that fails. If
  \<open>x\<close> is a channel, the passes start at \<open>hChanSize\<close> instead of 0; and with the field
  offsets below the size of the type, as the data model has them, no byte below
  \<open>hChanSize\<close> is read: whatever stands in the first \<open>hChanSize\<close> bytes of the payload,
  the outcome is the same. A type of size 0 has no field with an offset below its size;
  then the offsets \<open>i, i + size, ...\<close> are all the same, and the passes never end
  when \<open>i + size \<le> len(payload)\<close> holds at the start.
\<close>

theorem array_channel_passes:
  assumes "typ' (objs ! x) = Some t"
    and "unat (size' t) \<le> length (data (objs ! x))"
    and "length (data (objs ! x)) < 2 ^ 64"
  shows "(Object.kind (objs ! x) = typeKindArray \<and> 0 < unat (size' t) \<longrightarrow>
            linkObject info d objs x =
              Some (passesAt info d x (fields' t) objs
                (map of_nat (spec_pass_offsets 0 (unat (size' t)) (length (data (objs ! x))))))) \<and>
         (Object.kind (objs ! x) = typeKindChan \<and> 0 < unat (size' t) \<longrightarrow>
            linkObject info d objs x =
              Some (passesAt info d x (fields' t) objs
                (map of_nat (spec_pass_offsets (unat (hChanSize d)) (unat (size' t))
                   (length (data (objs ! x))))))) \<and>
         (Object.kind (objs ! x) = typeKindChan \<and> x < length objs \<and>
          (\<forall>f\<in>set (fields' t). unat (offset f) < unat (size' t)) \<and>
          length b = length (data (objs ! x)) \<and>
          drop (unat (hChanSize d)) b = drop (unat (hChanSize d)) (data (objs ! x)) \<longrightarrow>
            linkObject info d (withData objs x b) x =
              map_option (map_sum id (\<lambda>os. withData os x b)) (linkObject info d objs x)) \<and>
         (unat (size' t) = 0 \<and> (\<forall>f\<in>set (fields' t). unat (offset f) < unat (size' t)) \<longrightarrow>
            (Object.kind (objs ! x) = typeKindArray \<longrightarrow> linkObject info d objs x = None) \<and>
            (Object.kind (objs ! x) = typeKindChan \<longrightarrow>
               linkObject info d objs x =
                 (if unat (hChanSize d) \<le> length (data (objs ! x)) then None else Some (Inr objs))))"
proof -
  let ?n = "length (data (objs ! x))"
  let ?sz = "unat (size' t)"
  have nofields: "fields' t = []" if "\<forall>f\<in>set (fields' t). unat (offset f) < ?sz" "?sz = 0"
  proof (cases "fields' t")
    case Nil
    then show ?thesis .
  next
    case (Cons f fs)
    then have "f \<in> set (fields' t)" by simp
    with that show ?thesis by auto
  qed
  have z: "size' t = 0" if "?sz = 0" using that by (simp add: unat_eq_0)
  have lim0: "unat (of_nat ?n :: u64) = ?n" using assms(3) by (rule unat_of_nat64)
  have arr: "linkObject info d objs x =
      Some (passesAt info d x (fields' t) objs (map of_nat (spec_pass_offsets 0 ?sz ?n)))"
    if "Object.kind (objs ! x) = typeKindArray" "0 < ?sz"
    using that assms(1) linkPasses_spec[OF that(2) assms(2,3), of 0 info d x "fields' t" objs]
    by (simp add: linkObject_def)
  have chan: "linkObject info d os x =
      Some (passesAt info d x (fields' t) os (map of_nat (spec_pass_offsets (unat (hChanSize d)) ?sz ?n)))"
    if "0 < ?sz" "Object.kind (os ! x) = typeKindChan" "typ' (os ! x) = Some t"
      "length (data (os ! x)) = ?n" for os
  proof -
    have "unat (hChanSize d) < 2 ^ 64" using unsigned_less[of "hChanSize d", where 'a = nat] by simp
    from linkPasses_spec[OF that(1) assms(2,3) this, of info d x "fields' t" os] that
    show ?thesis by (simp add: linkObject_def)
  qed
  have arr0: "linkObject info d objs x = None"
    if "Object.kind (objs ! x) = typeKindArray" "?sz = 0" "fields' t = []"
    using that assms(1) z by (simp add: linkObject_def linkPasses_zero)
  have chan0: "linkObject info d os x =
      (if unat (hChanSize d) \<le> ?n then None else Some (Inr os))"
    if "?sz = 0" "fields' t = []" "Object.kind (os ! x) = typeKindChan" "typ' (os ! x) = Some t"
      "length (data (os ! x)) = ?n" for os
    using that z lim0 by (simp add: linkObject_def linkPasses_zero word_le_nat_alt)
  have indep: "linkObject info d (withData objs x b) x =
      map_option (map_sum id (\<lambda>os. withData os x b)) (linkObject info d objs x)"
    if k: "Object.kind (objs ! x) = typeKindChan" and x: "x < length objs"
      and fs: "\<forall>f\<in>set (fields' t). unat (offset f) < ?sz"
      and len: "length b = ?n"
      and agree: "drop (unat (hChanSize d)) b = drop (unat (hChanSize d)) (data (objs ! x))"
  proof -
    have wk: "Object.kind (withData objs x b ! x) = typeKindChan"
      "typ' (withData objs x b ! x) = Some t" "length (data (withData objs x b ! x)) = ?n"
      using k x assms(1) len by (simp_all add: withData_def)
    show ?thesis
    proof (cases "0 < ?sz")
      case pos: True
      let ?ps = "map of_nat (spec_pass_offsets (unat (hChanSize d)) ?sz ?n) :: u64 list"
      have ps: "\<forall>i\<in>set ?ps. unat (hChanSize d) \<le> unat i \<and>
          (\<forall>f\<in>set (fields' t). unat i + unat (offset f) < 2 ^ 64)"
      proof (intro ballI)
        fix i assume "i \<in> set ?ps"
        then obtain p where p: "p \<in> set (spec_pass_offsets (unat (hChanSize d)) ?sz ?n)" "i = of_nat p"
          by auto
        from spec_pass_offsets_range[OF p(1)] have r: "unat (hChanSize d) \<le> p" "p + ?sz \<le> ?n" by auto
        with assms(3) have "unat i = p" using p(2) by (simp add: unat_of_nat64)
        with r fs assms(3) show "unat (hChanSize d) \<le> unat i \<and>
            (\<forall>f\<in>set (fields' t). unat i + unat (offset f) < 2 ^ 64)"
          by fastforce
      qed
      show ?thesis
        unfolding chan[OF pos wk] chan[OF pos k assms(1) refl]
        using passesAt_withData[OF x len agree ps assms(3), of info d]
        by simp
    next
      case False
      then have s0: "?sz = 0" by simp
      from nofields[OF fs s0] have nf: "fields' t = []" .
      show ?thesis
        unfolding chan0[OF s0 nf wk] chan0[OF s0 nf k assms(1) refl]
        by simp
    qed
  qed
  have zero: "(Object.kind (objs ! x) = typeKindArray \<longrightarrow> linkObject info d objs x = None) \<and>
      (Object.kind (objs ! x) = typeKindChan \<longrightarrow>
         linkObject info d objs x = (if unat (hChanSize d) \<le> ?n then None else Some (Inr objs)))"
    if s0: "?sz = 0" and fs: "\<forall>f\<in>set (fields' t). unat (offset f) < ?sz"
    using arr0[OF _ s0 nofields[OF fs s0]] chan0[OF s0 nofields[OF fs s0] _ assms(1) refl]
    by blast
  from arr chan[OF _ _ assms(1) refl] indep zero show ?thesis by blast
qed

theorem array_channel_passes_witness:
  "typ' (array_objects ! 0) = Some elem_type \<and>
   typ' (chan_objects ! 0) = Some elem_type \<and>
   typ' (zero_array_objects ! 0) = Some zero_type \<and>
   0 < unat (size' elem_type) \<and>
   unat (size' zero_type) = 0 \<and>
   unat (size' elem_type) \<le> length (data (array_objects ! 0)) \<and>
   unat (size' elem_type) \<le> length (data (chan_objects ! 0)) \<and>
   unat (size' zero_type) \<le> length (data (zero_array_objects ! 0)) \<and>
   length (data (array_objects ! 0)) < 2 ^ 64 \<and>
   length (data (chan_objects ! 0)) < 2 ^ 64 \<and>
   length (data (zero_array_objects ! 0)) < 2 ^ 64 \<and>
   linkObject (linkInfo [0] [] params_dump) params_dump array_objects 0 =
     Some (passesAt (linkInfo [0] [] params_dump) params_dump 0 (fields' elem_type) array_objects
       (map of_nat (spec_pass_offsets 0 (unat (size' elem_type)) (length (data (array_objects ! 0)))))) \<and>
   spec_pass_offsets 0 (unat (size' elem_type)) (length (data (array_objects ! 0))) = [0, 8, 16] \<and>
   linkObject (linkInfo [0] [] params_dump) params_dump chan_objects 0 =
     Some (passesAt (linkInfo [0] [] params_dump) params_dump 0 (fields' elem_type) chan_objects
       (map of_nat (spec_pass_offsets (unat (hChanSize params_dump)) (unat (size' elem_type))
          (length (data (chan_objects ! 0)))))) \<and>
   spec_pass_offsets (unat (hChanSize params_dump)) (unat (size' elem_type))
     (length (data (chan_objects ! 0))) = [16, 24] \<and>
   linkObject (linkInfo [0] [] params_dump) params_dump (withData chan_objects 0 chan_other_header) 0 =
     map_option (map_sum id (\<lambda>os. withData os 0 chan_other_header))
       (linkObject (linkInfo [0] [] params_dump) params_dump chan_objects 0) \<and>
   linkObject (linkInfo [0] [] params_dump) params_dump zero_array_objects 0 = None"
proof -
  have t: "typ' (array_objects ! 0) = Some elem_type" "typ' (chan_objects ! 0) = Some elem_type"
    "typ' (zero_array_objects ! 0) = Some zero_type"
    by code_simp+
  have s: "0 < unat (size' elem_type)" "unat (size' zero_type) = 0" by code_simp+
  have l: "unat (size' elem_type) \<le> length (data (array_objects ! 0))"
    "unat (size' elem_type) \<le> length (data (chan_objects ! 0))"
    "unat (size' zero_type) \<le> length (data (zero_array_objects ! 0))"
    by code_simp+
  have b: "length (data (array_objects ! 0)) < 2 ^ 64" "length (data (chan_objects ! 0)) < 2 ^ 64"
    "length (data (zero_array_objects ! 0)) < 2 ^ 64"
    by (simp_all add: array_objects_def chan_objects_def zero_array_objects_def)
  have k: "Object.kind (array_objects ! 0) = typeKindArray" "Object.kind (chan_objects ! 0) = typeKindChan"
    "Object.kind (zero_array_objects ! 0) = typeKindArray"
    by code_simp+
  have p: "spec_pass_offsets 0 (unat (size' elem_type)) (length (data (array_objects ! 0))) = [0, 8, 16]"
    "spec_pass_offsets (unat (hChanSize params_dump)) (unat (size' elem_type))
       (length (data (chan_objects ! 0))) = [16, 24]"
    by code_simp+
  have c: "(0::nat) < length chan_objects"
    "\<forall>f\<in>set (fields' elem_type). unat (offset f) < unat (size' elem_type)"
    "length chan_other_header = length (data (chan_objects ! 0))"
    "drop (unat (hChanSize params_dump)) chan_other_header =
       drop (unat (hChanSize params_dump)) (data (chan_objects ! 0))"
    by code_simp+
  have z: "\<forall>f\<in>set (fields' zero_type). unat (offset f) < unat (size' zero_type)"
    by (simp add: zero_type_def)
  note a1 = array_channel_passes[OF t(1) l(1) b(1), of "linkInfo [0] [] params_dump" params_dump]
  note a2 = array_channel_passes[OF t(2) l(2) b(2), of "linkInfo [0] [] params_dump" params_dump
     chan_other_header]
  note a3 = array_channel_passes[OF t(3) l(3) b(3), of "linkInfo [0] [] params_dump" params_dump]
  from a1 a2 a3 t s l b k p c z show ?thesis by blast
qed

text \<open>
  Outside the invariant of the data model, with a payload shorter than the type, the
  loop condition \<open>i \<le> len(payload) - size\<close> of the code wraps around in 64-bit arithmetic:
  with size 16 and 8 bytes of payload no offset \<open>i\<close> has \<open>i + size \<le> len(payload)\<close>, yet the
  condition holds for \<open>i = 0\<close> and \<open>i = 16\<close>, the passes are made, and the pass at 16 reads
  beyond the payload.
\<close>

lemma short_array_wraps:
  "spec_pass_offsets 0 16 8 = [] \<and>
   map_option (map_sum id (\<lambda>d'. map edges (Dump.objects d'))) (link [0, 1] [] short_array_dump)
     = Some (Inl Panic)"
  by code_simp

subsection \<open>The order of the edges of an object\<close>

lemma inWindow_Nil [simp]: "inWindow lo hi []"
  by (simp add: inWindow_def)

lemma inWindow_append:
  assumes "inWindow lo mid es1" "inWindow mid hi es2" "lo \<le> mid" "mid \<le> hi"
  shows "inWindow lo hi (es1 @ es2)"
proof -
  have a: "unat (fromoffset u) \<le> unat (fromoffset v)" if "u \<in> set es1" "v \<in> set es2" for u v
  proof -
    from that assms(1,2) have "unat (fromoffset u) \<le> mid" "mid \<le> unat (fromoffset v)"
      by (simp_all add: inWindow_def)
    then show ?thesis by simp
  qed
  have b: "lo \<le> unat (fromoffset u) \<and> unat (fromoffset u) \<le> hi" if "u \<in> set es1 \<union> set es2" for u
  proof -
    from that consider "u \<in> set es1" | "u \<in> set es2" by blast
    then show ?thesis
    proof cases
      case 1
      with assms(1) have "lo \<le> unat (fromoffset u)" "unat (fromoffset u) \<le> mid"
        by (simp_all add: inWindow_def)
      with assms(4) show ?thesis by simp
    next
      case 2
      with assms(2) have "mid \<le> unat (fromoffset u)" "unat (fromoffset u) \<le> hi"
        by (simp_all add: inWindow_def)
      with assms(3) show ?thesis by simp
    qed
  qed
  from assms(1,2) have "sorted (map (\<lambda>edge. unat (fromoffset edge)) es1)"
    "sorted (map (\<lambda>edge. unat (fromoffset edge)) es2)"
    by (simp_all add: inWindow_def)
  with a b show ?thesis
    unfolding inWindow_def by (simp add: sorted_append)
qed

lemma inWindow_mono:
  assumes "inWindow lo hi es" "lo' \<le> lo" "hi \<le> hi'"
  shows "inWindow lo' hi' es"
proof -
  have "lo' \<le> unat (fromoffset u) \<and> unat (fromoffset u) \<le> hi'" if "u \<in> set es" for u
  proof -
    from that assms(1) have "lo \<le> unat (fromoffset u)" "unat (fromoffset u) \<le> hi"
      by (simp_all add: inWindow_def)
    with assms(2,3) show ?thesis by simp
  qed
  with assms(1) show ?thesis by (simp add: inWindow_def)
qed

lemma inWindow_sorted: "inWindow lo hi es \<Longrightarrow> sorted (map (\<lambda>edge. unat (fromoffset edge)) es)"
  by (simp add: inWindow_def)

lemma inWindow_const:
  assumes "\<forall>edge\<in>set es. unat (fromoffset edge) = a"
  shows "inWindow a a es"
proof -
  have "map (\<lambda>edge. unat (fromoffset edge)) es = replicate (length es) a"
    using assms by (induction es) auto
  then show ?thesis using assms by (simp add: inWindow_def)
qed

lemma linkField_window:
  assumes r: "linkField info d objs x base f = Inr objs'"
    and nowrap: "unat base + unat (offset f) + unat (ptrSize d) < 2 ^ 64"
  shows "\<exists>es. objs' = addEdges objs x es \<and>
           inWindow (unat base + unat (offset f)) (unat base + unat (offset f) + unat (ptrSize d)) es"
proof -
  let ?a = "unat base + unat (offset f)"
  from linkField_adds[OF r] obtain es1 es2 where
    o: "objs' = addEdges objs x (es1 @ es2)" and
    e1: "\<forall>edge\<in>set es1. fromoffset edge = base + offset f" and
    e2: "\<forall>edge\<in>set es2. fromoffset edge = base + offset f + ptrSize d"
    by blast
  have off: "unat (base + offset f) = ?a" using nowrap by (simp add: unat_plus64)
  then have off2: "unat (base + offset f + ptrSize d) = ?a + unat (ptrSize d)"
    using nowrap by (simp add: unat_plus64)
  have "inWindow ?a ?a es1" using e1 off by (intro inWindow_const) simp
  moreover have "inWindow (?a + unat (ptrSize d)) (?a + unat (ptrSize d)) es2"
    using e2 off2 by (intro inWindow_const) simp
  moreover have "inWindow ?a (?a + unat (ptrSize d)) es1" if "inWindow ?a ?a es1"
    using that by (rule inWindow_mono) simp_all
  ultimately have "inWindow ?a (?a + unat (ptrSize d)) (es1 @ es2)"
    by (intro inWindow_append[where mid = "?a + unat (ptrSize d)"]) simp_all
  with o show ?thesis by blast
qed

lemma linkFields_window:
  assumes "linkFields info d objs x fs base = Inr objs'"
    and "sorted_wrt (\<lambda>f g. unat (offset f) + unat (ptrSize d) \<le> unat (offset g)) fs"
    and "\<forall>f\<in>set fs. lo \<le> unat base + unat (offset f) \<and>
           unat base + unat (offset f) + unat (ptrSize d) \<le> hi"
    and "hi < 2 ^ 64" and "lo \<le> hi"
  shows "\<exists>es. objs' = addEdges objs x es \<and> inWindow lo hi es"
  using assms
proof (induction fs arbitrary: objs lo)
  case Nil
  then have "objs' = addEdges objs x []" by simp
  then show ?case by (intro exI[of _ "[]"]) simp
next
  case (Cons f fs)
  let ?a = "unat base + unat (offset f)"
  let ?b = "?a + unat (ptrSize d)"
  from Cons.prems(1) obtain objs1 where
    s1: "linkField info d objs x base f = Inr objs1" and
    s2: "linkFields info d objs1 x fs base = Inr objs'"
    by (auto split: sum.splits)
  from Cons.prems(3) have fb: "lo \<le> ?a" "?b \<le> hi" by auto
  with Cons.prems(4) have "?b < 2 ^ 64" by simp
  from linkField_window[OF s1 this] obtain es1 where
    o1: "objs1 = addEdges objs x es1" and w1: "inWindow ?a ?b es1" by blast
  have rest: "\<forall>g\<in>set fs. ?b \<le> unat base + unat (offset g) \<and>
      unat base + unat (offset g) + unat (ptrSize d) \<le> hi"
    using Cons.prems(2,3) by auto
  from Cons.prems(2) have sw: "sorted_wrt (\<lambda>f g. unat (offset f) + unat (ptrSize d) \<le> unat (offset g)) fs"
    by simp
  from Cons.IH[OF s2 sw rest Cons.prems(4) fb(2)] obtain es2 where
    o2: "objs' = addEdges objs1 x es2" and w2: "inWindow ?b hi es2" by blast
  have "inWindow ?a hi (es1 @ es2)"
    using w1 w2 fb(2) by (intro inWindow_append[where mid = ?b]) simp_all
  then have "inWindow lo hi (es1 @ es2)" using fb(1) by (rule inWindow_mono) simp
  moreover have "objs' = addEdges objs x (es1 @ es2)" using o1 o2 by simp
  ultimately show ?case by blast
qed

lemma passesAt_window:
  assumes "passesAt info d x fs objs (map of_nat (spec_pass_offsets i sz n)) = Inr objs'"
    and "sorted_wrt (\<lambda>f g. unat (offset f) + unat (ptrSize d) \<le> unat (offset g)) fs"
    and "\<forall>f\<in>set fs. unat (offset f) + unat (ptrSize d) \<le> sz"
    and "n < 2 ^ 64"
  shows "\<exists>es. objs' = addEdges objs x es \<and> inWindow i n es"
  using assms
proof (induction i sz n arbitrary: objs rule: spec_pass_offsets.induct)
  case (1 i sz len)
  show ?case
  proof (cases "0 < sz \<and> i + sz \<le> len")
    case True
    then have sp: "spec_pass_offsets i sz len = i # spec_pass_offsets (i + sz) sz len"
      by (subst spec_pass_offsets.simps) simp
    from "1.prems"(1) obtain objs1 where
      s1: "linkFields info d objs x fs (of_nat i) = Inr objs1" and
      s2: "passesAt info d x fs objs1 (map of_nat (spec_pass_offsets (i + sz) sz len)) = Inr objs'"
      unfolding sp by (auto split: sum.splits)
    have ui: "unat (of_nat i :: u64) = i" using True "1.prems"(4) by (simp add: unat_of_nat64)
    have fw: "\<forall>f\<in>set fs. i \<le> unat (of_nat i :: u64) + unat (offset f) \<and>
        unat (of_nat i :: u64) + unat (offset f) + unat (ptrSize d) \<le> i + sz"
      using "1.prems"(3) ui by auto
    have hi: "i + sz < 2 ^ 64" using True "1.prems"(4) by simp
    from linkFields_window[OF s1 "1.prems"(2) fw hi] obtain es1 where
      o1: "objs1 = addEdges objs x es1" and w1: "inWindow i (i + sz) es1" by auto
    from "1.IH"[OF True s2 "1.prems"(2,3,4)] obtain es2 where
      o2: "objs' = addEdges objs1 x es2" and w2: "inWindow (i + sz) len es2" by blast
    have "inWindow i len (es1 @ es2)"
      using w1 w2 True by (intro inWindow_append[where mid = "i + sz"]) simp_all
    moreover have "objs' = addEdges objs x (es1 @ es2)" using o1 o2 by simp
    ultimately show ?thesis by blast
  next
    case False
    then have "spec_pass_offsets i sz len = []" by (subst spec_pass_offsets.simps) simp
    with "1.prems"(1) have "objs' = addEdges objs x []" by simp
    then show ?thesis by (intro exI[of _ "[]"]) simp
  qed
qed

lemma linkObject_sorted:
  assumes r: "linkObject info d objs x = Some (Inr objs')"
    and sc: "scannable d (objs ! x)"
  shows "\<exists>es. objs' = addEdges objs x es \<and> sorted (map (\<lambda>edge. unat (fromoffset edge)) es)"
proof (cases "typ' (objs ! x)")
  case None
  with r have "objs' = addEdges objs x []" by (simp add: linkObject_def)
  then show ?thesis by (intro exI[of _ "[]"]) simp
next
  case (Some t)
  with sc have wl: "wellLaid (ptrSize d) t" by (simp add: scannable_def)
  then have sw: "sorted_wrt (\<lambda>f g. unat (offset f) + unat (ptrSize d) \<le> unat (offset g)) (fields' t)"
    and fb: "\<forall>f\<in>set (fields' t). unat (offset f) + unat (ptrSize d) \<le> unat (size' t)"
    by (auto simp: wellLaid_def)
  let ?n = "length (data (objs ! x))"
  consider (plain) "Object.kind (objs ! x) = typeKindObject"
    | (loop) "Object.kind (objs ! x) = typeKindArray \<or> Object.kind (objs ! x) = typeKindChan"
    | (other) "Object.kind (objs ! x) \<noteq> typeKindObject" "Object.kind (objs ! x) \<noteq> typeKindArray"
        "Object.kind (objs ! x) \<noteq> typeKindChan"
    by blast
  then show ?thesis
  proof cases
    case plain
    with r Some have s: "linkFields info d objs x (fields' t) 0 = Inr objs'"
      by (simp add: linkObject_def)
    have w: "\<forall>f\<in>set (fields' t). 0 \<le> unat (0::u64) + unat (offset f) \<and>
        unat (0::u64) + unat (offset f) + unat (ptrSize d) \<le> unat (size' t)"
      using fb by simp
    have "unat (size' t) < 2 ^ 64" using unsigned_less[of "size' t", where 'a = nat] by simp
    from linkFields_window[OF s sw w this] obtain es where
      "objs' = addEdges objs x es" "inWindow 0 (unat (size' t)) es" by auto
    then show ?thesis using inWindow_sorted by blast
  next
    case loop
    with sc Some have sz: "0 < unat (size' t)" "unat (size' t) \<le> ?n" "?n < 2 ^ 64"
      by (auto simp: scannable_def)
    define start where "start = (if Object.kind (objs ! x) = typeKindArray then 0 else unat (hChanSize d))"
    have st: "start < 2 ^ 64"
      using unsigned_less[of "hChanSize d", where 'a = nat] by (simp add: start_def)
    have "linkObject info d objs x =
        linkPasses info d x (fields' t) (size' t) (of_nat ?n - size' t) objs (of_nat start)"
      using loop Some by (auto simp: linkObject_def start_def)
    with r linkPasses_spec[OF sz st, of info d x "fields' t" objs]
    have "passesAt info d x (fields' t) objs (map of_nat (spec_pass_offsets start (unat (size' t)) ?n))
        = Inr objs'"
      by simp
    from passesAt_window[OF this sw fb sz(3)] obtain es where
      "objs' = addEdges objs x es" "inWindow start ?n es" by auto
    then show ?thesis using inWindow_sorted by blast
  next
    case other
    with r Some have "objs' = addEdges objs x []" by (simp add: linkObject_def)
    then show ?thesis by (intro exI[of _ "[]"]) simp
  qed
qed


lemma linkPasses_adds:
  assumes "linkPasses info d x fs sz limit objs i = Some r"
  shows "\<forall>objs'. r = Inr objs' \<longrightarrow> (\<exists>es. objs' = addEdges objs x es)"
proof -
  note ind = linkPasses.raw_induct[where xa = "(((((((info, d), x), fs), sz), limit), objs), i)"
      and P = "\<lambda>info d x fs sz limit objs i r.
                 \<forall>objs'. r = Inr objs' \<longrightarrow> (\<exists>es. objs' = addEdges objs x es)",
      unfolded prod.case]
  show ?thesis
  proof (rule ind[OF _ assms])
    fix loop :: "LinkInfo \<Rightarrow> Dump \<Rightarrow> nat \<Rightarrow> Field list \<Rightarrow> u64 \<Rightarrow> u64 \<Rightarrow> Object list \<Rightarrow> u64
        \<Rightarrow> (error + Object list) option"
    fix info d x fs sz limit objs i r
    assume hyps: "\<And>info d x fs sz limit objs i r. loop info d x fs sz limit objs i = Some r \<Longrightarrow>
        \<forall>objs'. r = Inr objs' \<longrightarrow> (\<exists>es. objs' = addEdges objs x es)"
    assume prems: "(if i \<le> limit
      then case linkFields info d objs x fs i of Inl err \<Rightarrow> Some (Inl err)
           | Inr objs' \<Rightarrow> loop info d x fs sz limit objs' (i + sz)
      else Some (Inr objs)) = Some r"
    show "\<forall>objs'. r = Inr objs' \<longrightarrow> (\<exists>es. objs' = addEdges objs x es)"
    proof (cases "i \<le> limit")
      case False
      with prems have "r = Inr (addEdges objs x [])" by simp
      then show ?thesis by blast
    next
      case True
      show ?thesis
      proof (cases "linkFields info d objs x fs i")
        case (Inl err)
        with True prems show ?thesis by auto
      next
        case (Inr objs1)
        with True prems have l: "loop info d x fs sz limit objs1 (i + sz) = Some r"
          by simp
        from linkFields_adds[OF Inr] obtain es1 where o1: "objs1 = addEdges objs x es1" by blast
        show ?thesis
        proof (intro allI impI)
          fix objs' assume "r = Inr objs'"
          with hyps[OF l] obtain es2 where "objs' = addEdges objs1 x es2" by blast
          with o1 have "objs' = addEdges objs x (es1 @ es2)" by simp
          then show "\<exists>es. objs' = addEdges objs x es" by blast
        qed
      qed
    qed
  qed
qed


lemma linkObject_adds:
  assumes "linkObject info d objs x = Some (Inr objs')"
  shows "\<exists>es. objs' = addEdges objs x es"
proof (cases "typ' (objs ! x)")
  case None
  with assms have "objs' = addEdges objs x []" by (simp add: linkObject_def)
  then show ?thesis by blast
next
  case (Some t)
  consider (plain) "Object.kind (objs ! x) = typeKindObject"
    | (loop) "Object.kind (objs ! x) \<noteq> typeKindObject"
        "Object.kind (objs ! x) = typeKindArray \<or> Object.kind (objs ! x) = typeKindChan"
    | (other) "Object.kind (objs ! x) \<noteq> typeKindObject" "Object.kind (objs ! x) \<noteq> typeKindArray"
        "Object.kind (objs ! x) \<noteq> typeKindChan"
    by blast
  then show ?thesis
  proof cases
    case plain
    with assms Some have "linkFields info d objs x (fields' t) 0 = Inr objs'"
      by (simp add: linkObject_def)
    then show ?thesis by (rule linkFields_adds)
  next
    case loop
    with assms Some obtain start where
      "linkPasses info d x (fields' t) (size' t) (of_nat (length (data (objs ! x))) - size' t) objs start
         = Some (Inr objs')"
      by (auto simp: linkObject_def split: if_splits)
    from linkPasses_adds[OF this] show ?thesis by blast
  next
    case other
    with assms Some have "objs' = addEdges objs x []" by (simp add: linkObject_def)
    then show ?thesis by blast
  qed
qed

lemma scannable_addEdges [simp]: "scannable d (addEdges objs x es ! q) = scannable d (objs ! q)"
  by (simp add: scannable_def split: option.splits)

lemma linkObjects_sorted:
  assumes "linkObjects info d objs xs = Some (Inr objs')" "distinct xs"
    and "\<forall>x\<in>set xs. scannable d (objs ! x)"
  shows "length objs' = length objs \<and>
    (\<forall>q<length objs. \<exists>es. edges (objs' ! q) = edges (objs ! q) @ es \<and>
        sorted (map (\<lambda>edge. unat (fromoffset edge)) es) \<and> (q \<notin> set xs \<longrightarrow> es = []))"
  using assms
proof (induction xs arbitrary: objs)
  case Nil
  then show ?case by simp
next
  case (Cons x xs)
  from Cons.prems(1) obtain objs1 where
    o: "linkObject info d objs x = Some (Inr objs1)" and
    r: "linkObjects info d objs1 xs = Some (Inr objs')"
    by (auto split: option.splits sum.splits)
  from Cons.prems(3) have "scannable d (objs ! x)" by simp
  from linkObject_sorted[OF o this] obtain es1 where
    o1: "objs1 = addEdges objs x es1" and s1: "sorted (map (\<lambda>edge. unat (fromoffset edge)) es1)"
    by blast
  from Cons.prems(2) have dx: "distinct xs" and nx: "x \<notin> set xs" by simp_all
  from Cons.prems(3) have "\<forall>y\<in>set xs. scannable d (objs1 ! y)" by (simp add: o1)
  from Cons.IH[OF r dx this] have
    len: "length objs' = length objs1" and
    ih: "\<forall>q<length objs1. \<exists>es. edges (objs' ! q) = edges (objs1 ! q) @ es \<and>
        sorted (map (\<lambda>edge. unat (fromoffset edge)) es) \<and> (q \<notin> set xs \<longrightarrow> es = [])"
    by simp_all
  have "\<exists>es. edges (objs' ! q) = edges (objs ! q) @ es \<and>
        sorted (map (\<lambda>edge. unat (fromoffset edge)) es) \<and> (q \<notin> set (x # xs) \<longrightarrow> es = [])"
    if q: "q < length objs" for q
  proof -
    from q ih obtain es where
      e: "edges (objs' ! q) = edges (objs1 ! q) @ es"
         "sorted (map (\<lambda>edge. unat (fromoffset edge)) es)" "q \<notin> set xs \<longrightarrow> es = []"
      by (auto simp: o1)
    show ?thesis
    proof (cases "q = x")
      case True
      with nx e(3) have "es = []" by simp
      with e(1) True q have "edges (objs' ! q) = edges (objs ! q) @ es1"
        by (simp add: o1 edges_addEdges)
      with s1 True show ?thesis by simp
    next
      case False
      with q e(1) have "edges (objs' ! q) = edges (objs ! q) @ es"
        by (cases "x < length objs") (simp_all add: o1 edges_addEdges addEdges_beyond)
      with e(2,3) False show ?thesis by simp
    qed
  qed
  with len show ?case by (simp add: o1)
qed

lemma linkTypes_map:
  "linkTypes tm objs = Inr objs1 \<Longrightarrow>
   objs1 = map (\<lambda>x. x\<lparr>typ' := (if typaddr x = 0 then None else tm (typaddr x))\<rparr>) objs"
proof (induction objs arbitrary: objs1)
  case Nil
  then show ?case by simp
next
  case (Cons x xs)
  from Cons.prems obtain xs' where t: "linkTypes tm xs = Inr xs'"
    by (auto split: if_splits sum.splits option.splits)
  from Cons.IH[OF t] Cons.prems t show ?case
    by (auto split: if_splits option.splits)
qed

lemma foldl_upd_in_set:
  "foldl (\<lambda>m x. m(Type.addr x \<mapsto> x)) m ts a = Some t \<Longrightarrow> m a = Some t \<or> t \<in> set ts"
proof (induction ts arbitrary: m)
  case Nil
  then show ?case by simp
next
  case (Cons u us)
  from Cons.prems have "foldl (\<lambda>m x. m(Type.addr x \<mapsto> x)) (m(Type.addr u \<mapsto> u)) us a = Some t"
    by (simp only: foldl_Cons)
  from Cons.IH[OF this] show ?case
    by (auto split: if_splits)
qed

lemma typesMap_in_set: "typesMap ts a = Some t \<Longrightarrow> t \<in> set ts"
  using foldl_upd_in_set[of Map.empty ts a t] by (simp add: typesMap_def)

lemma finExt_refl: "finExt objs objs"
  by (simp add: finExt_def)

lemma finExt_trans:
  assumes "finExt a b" "finExt b c"
  shows "finExt a c"
proof -
  from assms have len: "length b = length a" "length c = length a" by (simp_all add: finExt_def)
  have "\<exists>fin. edges (c ! x) = edges (a ! x) @ fin \<and>
         (\<forall>edge\<in>set fin. fromoffset edge = 0 \<and> to edge = x) \<and>
         typ' (c ! x) = typ' (a ! x) \<and> Object.kind (c ! x) = Object.kind (a ! x) \<and>
         data (c ! x) = data (a ! x)" if x: "x < length a" for x
  proof -
    from assms(1) x obtain f1 where
      1: "edges (b ! x) = edges (a ! x) @ f1" "\<forall>edge\<in>set f1. fromoffset edge = 0 \<and> to edge = x"
         "typ' (b ! x) = typ' (a ! x)" "Object.kind (b ! x) = Object.kind (a ! x)"
         "data (b ! x) = data (a ! x)"
      unfolding finExt_def by blast
    from assms(2) x len obtain f2 where
      2: "edges (c ! x) = edges (b ! x) @ f2" "\<forall>edge\<in>set f2. fromoffset edge = 0 \<and> to edge = x"
         "typ' (c ! x) = typ' (b ! x)" "Object.kind (c ! x) = Object.kind (b ! x)"
         "data (c ! x) = data (b ! x)"
      unfolding finExt_def by force
    from 1 2 have "edges (c ! x) = edges (a ! x) @ (f1 @ f2)"
      "\<forall>edge\<in>set (f1 @ f2). fromoffset edge = 0 \<and> to edge = x" by auto
    with 1 2 show ?thesis by (intro exI[of _ "f1 @ f2"]) simp
  qed
  with len show ?thesis unfolding finExt_def by blast
qed

lemma finExt_addEdges:
  assumes "\<forall>edge\<in>set es. fromoffset edge = 0 \<and> to edge = x"
  shows "finExt objs (addEdges objs x es)"
proof -
  have "\<exists>fin. edges (addEdges objs x es ! q) = edges (objs ! q) @ fin \<and>
         (\<forall>edge\<in>set fin. fromoffset edge = 0 \<and> to edge = q)" if q: "q < length objs" for q
  proof (cases "q = x")
    case True
    with q assms show ?thesis by (intro exI[of _ es]) (simp add: edges_addEdges)
  next
    case False
    with q show ?thesis
      by (intro exI[of _ "[]"]) (cases "x < length objs", simp_all add: edges_addEdges addEdges_beyond)
  qed
  then show ?thesis by (simp add: finExt_def)
qed

lemma finExt_linkFinalizerTarget: "finExt objs (linkFinalizerTarget info x objs a)"
proof (cases "Heap_find objs (heap info) a")
  case None
  then show ?thesis by (simp add: linkFinalizerTarget_def finExt_refl)
next
  case (Some y)
  show ?thesis
  proof (cases x)
    case None
    with Some show ?thesis by (simp add: linkFinalizerTarget_def finExt_refl)
  next
    case (Some xi)
    with \<open>Heap_find objs (heap info) a = Some y\<close> show ?thesis
      by (simp add: linkFinalizerTarget_def appendEdge_addEdges finExt_addEdges)
  qed
qed

lemma finExt_foldl:
  assumes "\<And>objs a. finExt objs (f objs a)"
  shows "finExt objs (foldl f objs as)"
proof (induction as arbitrary: objs)
  case Nil
  show ?case by (simp add: finExt_refl)
next
  case (Cons a as)
  from finExt_trans[OF assms[of objs a] Cons.IH[of "f objs a"]] show ?case by simp
qed

lemma finExt_linkFinalizer: "finExt objs (linkFinalizer info objs f)"
  unfolding linkFinalizer_def Let_def
  by (rule finExt_foldl) (rule finExt_linkFinalizerTarget)

lemma finExt_linkFinalizers: "finExt objs (linkFinalizers info objs fs)"
  unfolding linkFinalizers_def
  by (rule finExt_foldl) (rule finExt_linkFinalizer)

lemma foldl_upd_addr:
  "foldl (\<lambda>m x. m(Type.addr x \<mapsto> x)) m ts a = Some t \<Longrightarrow> m a = Some t \<or> Type.addr t = a"
proof (induction ts arbitrary: m)
  case Nil
  then show ?case by simp
next
  case (Cons u us)
  from Cons.prems have "foldl (\<lambda>m x. m(Type.addr x \<mapsto> x)) (m(Type.addr u \<mapsto> u)) us a = Some t"
    by (simp only: foldl_Cons)
  from Cons.IH[OF this] show ?case
    by (auto split: if_splits)
qed

lemma typesMap_addr: "typesMap ts a = Some t \<Longrightarrow> Type.addr t = a"
  using foldl_upd_addr[of Map.empty ts a t] by (simp add: typesMap_def)

lemma orderedLayout_scannable:
  assumes ol: "orderedLayout d"
    and lt: "linkTypes (typesMap (Dump.types d)) (Dump.objects d) = Inr objs1"
    and x: "x < length (Dump.objects d)"
  shows "scannable d (objs1 ! x) \<and> edges (objs1 ! x) = []"
proof -
  let ?ob = "Dump.objects d ! x"
  let ?ty = "if typaddr ?ob = 0 then None else typesMap (Dump.types d) (typaddr ?ob)"
  from x have mem: "?ob \<in> set (Dump.objects d)" by simp
  from linkTypes_map[OF lt] x have o: "objs1 ! x = ?ob\<lparr>typ' := ?ty\<rparr>" by simp
  from ol mem have e: "edges ?ob = []" unfolding orderedLayout_def by blast
  have "scannable d (?ob\<lparr>typ' := ?ty\<rparr>)"
  proof (cases ?ty)
    case None
    then show ?thesis by (simp add: scannable_def)
  next
    case (Some t)
    then have tm: "typesMap (Dump.types d) (typaddr ?ob) = Some t" by (simp split: if_splits)
    from typesMap_in_set[OF tm] have ts: "t \<in> set (Dump.types d)" .
    from typesMap_addr[OF tm] have ta: "Type.addr t = typaddr ?ob" .
    from ol ts have wl: "wellLaid (ptrSize d) t" unfolding orderedLayout_def by blast
    have "0 < unat (size' t) \<and> unat (size' t) \<le> length (data ?ob) \<and> length (data ?ob) < 2 ^ 64"
      if "Object.kind ?ob = typeKindArray \<or> Object.kind ?ob = typeKindChan"
      using ol mem ts ta that unfolding orderedLayout_def by blast
    with wl Some show ?thesis by (simp add: scannable_def)
  qed
  with o e show ?thesis by simp
qed

lemma linkFinalizers_Nil: "linkFinalizers info objs [] = objs"
  by (simp add: linkFinalizers_def)

text \<open>
  C7, as amended. Let \<open>link\<close> return \<open>d'\<close> for a dump \<open>d\<close> in which every type lists its
  fields by increasing offset, at least a pointer apart and with room for a pointer
  within the size of the type, no object has edges yet, and every array or channel
  holds at least one element of a type of positive size. Then the edges of every
  object of \<open>d'\<close> are the edges \<open>scan\<close> of its fields, in nondecreasing order of
  \<open>fromoffset\<close>, followed by the edges \<open>fin\<close> of the finalizer loop, which leave at offset
  0; without finalizers \<open>fin\<close> is empty and the whole list is ordered. (No object of a
  dump that \<open>rawRead\<close> returns has edges, by \<open>rawRead_no_edges\<close>.)
\<close>

theorem field_edges_ordered:
  assumes l: "link h g d = Some (Inr d')"
    and ol: "orderedLayout d"
    and x: "x < length (Dump.objects d)"
  shows "\<exists>scan fin. edges (Dump.objects d' ! x) = scan @ fin \<and>
           sorted (map (\<lambda>edge. unat (fromoffset edge)) scan) \<and>
           (\<forall>edge\<in>set fin. fromoffset edge = 0 \<and> to edge = x) \<and>
           (finalizers d = [] \<longrightarrow> fin = [])"
proof -
  define info where "info = linkInfo h g d"
  have ty: "LinkInfo.types info = typesMap (Dump.types d)" by (simp add: info_def linkInfo_def)
  from l obtain objs1 objs2 where
    lt: "linkTypes (LinkInfo.types info) (Dump.objects d) = Inr objs1" and
    lo: "linkObjects info d objs1 [0..<length objs1] = Some (Inr objs2)" and
    d': "Dump.objects d' = linkFinalizers info objs2 (finalizers d)"
    unfolding link_def Let_def info_def[symmetric]
    by (auto split: sum.splits option.splits)
  from linkTypes_map[OF lt] have len1: "length objs1 = length (Dump.objects d)" by simp
  have sc: "\<forall>q\<in>set [0..<length objs1]. scannable d (objs1 ! q)"
    using orderedLayout_scannable[OF ol lt[unfolded ty]] len1 by simp
  from linkObjects_sorted[OF lo _ sc] x len1 obtain scan where
    len2: "length objs2 = length objs1" and
    e2: "edges (objs2 ! x) = edges (objs1 ! x) @ scan" and
    s: "sorted (map (\<lambda>edge. unat (fromoffset edge)) scan)"
    by auto
  from orderedLayout_scannable[OF ol lt[unfolded ty] x] e2 have e2': "edges (objs2 ! x) = scan"
    by simp
  show ?thesis
  proof (cases "finalizers d = []")
    case True
    with d' e2' have "edges (Dump.objects d' ! x) = scan @ []" by (simp add: linkFinalizers_Nil)
    with s show ?thesis by (intro exI[of _ scan] exI[of _ "[]"]) simp
  next
    case False
    from finExt_linkFinalizers[of objs2 info "finalizers d"] x len1 len2 obtain fin where
      "edges (linkFinalizers info objs2 (finalizers d) ! x) = edges (objs2 ! x) @ fin"
      "\<forall>edge\<in>set fin. fromoffset edge = 0 \<and> to edge = x"
      unfolding finExt_def by force
    with d' e2' s False show ?thesis by (intro exI[of _ scan] exI[of _ fin]) simp
  qed
qed

text \<open>
  C7 as stated fails in two ways. The edges follow the order in which the type lists its
  fields, which the dump decides: with the field at offset 8 listed before the one at
  offset 0, the edges of \<open>X\<close> leave at 8 and then at 0. And the finalizer loop runs after
  the fields were scanned and appends an edge that leaves at offset 0: with the fields
  listed by offset, the edges of the finalized \<open>X\<close> leave at 0, 8 and 0.
\<close>

theorem edges_order_counterexample:
  "map_option (map_sum id (\<lambda>d'. map edges (Dump.objects d'))) (link [0, 1] [] unordered_fields_dump)
     = Some (Inr [[\<lparr>to = 1, fromoffset = 8, tooffset = 0\<rparr>, \<lparr>to = 1, fromoffset = 0, tooffset = 0\<rparr>], []]) \<and>
   map_option (map_sum id (\<lambda>d'. map edges (Dump.objects d'))) (link [0, 1] [] finalized_pair_dump)
     = Some (Inr [[\<lparr>to = 1, fromoffset = 0, tooffset = 0\<rparr>, \<lparr>to = 1, fromoffset = 8, tooffset = 0\<rparr>,
                   \<lparr>to = 0, fromoffset = 0, tooffset = 0\<rparr>], []]) \<and>
   \<not> sorted (map unat [8, 0 :: u64]) \<and> \<not> sorted (map unat [0, 8, 0 :: u64])"
  by code_simp

theorem field_edges_ordered_witness:
  "orderedLayout finalized_pair_dump \<and> (0::nat) < length (Dump.objects finalized_pair_dump) \<and>
   (\<exists>d'. link [0, 1] [] finalized_pair_dump = Some (Inr d') \<and>
      edges (Dump.objects d' ! 0) =
        [\<lparr>to = 1, fromoffset = 0, tooffset = 0\<rparr>, \<lparr>to = 1, fromoffset = 8, tooffset = 0\<rparr>,
         \<lparr>to = 0, fromoffset = 0, tooffset = 0\<rparr>] \<and>
      (\<exists>scan fin. edges (Dump.objects d' ! 0) = scan @ fin \<and>
         sorted (map (\<lambda>edge. unat (fromoffset edge)) scan) \<and>
         (\<forall>edge\<in>set fin. fromoffset edge = 0 \<and> to edge = 0) \<and>
         (finalizers finalized_pair_dump = [] \<longrightarrow> fin = [])))"
proof -
  have ol: "orderedLayout finalized_pair_dump"
    by (simp add: orderedLayout_def finalized_pair_dump_def pair_objects_def wellLaid_def zeroDump_def)
  have x: "(0::nat) < length (Dump.objects finalized_pair_dump)"
    by (simp add: finalized_pair_dump_def pair_objects_def)
  have "map_option (map_sum id (\<lambda>d'. map edges (Dump.objects d'))) (link [0, 1] [] finalized_pair_dump)
     = Some (Inr [[\<lparr>to = 1, fromoffset = 0, tooffset = 0\<rparr>, \<lparr>to = 1, fromoffset = 8, tooffset = 0\<rparr>,
                   \<lparr>to = 0, fromoffset = 0, tooffset = 0\<rparr>], []])"
    by code_simp
  then obtain d' where
    l: "link [0, 1] [] finalized_pair_dump = Some (Inr d')" and
    m: "map edges (Dump.objects d') =
          [[\<lparr>to = 1, fromoffset = 0, tooffset = 0\<rparr>, \<lparr>to = 1, fromoffset = 8, tooffset = 0\<rparr>,
            \<lparr>to = 0, fromoffset = 0, tooffset = 0\<rparr>], []]"
  proof (cases "link [0, 1] [] finalized_pair_dump")
    case None
    with that \<open>map_option _ _ = _\<close> show ?thesis by simp
  next
    case (Some r)
    with that \<open>map_option _ _ = _\<close> show ?thesis by (cases r) simp_all
  qed
  from m have "map edges (Dump.objects d') ! 0 =
          [\<lparr>to = 1, fromoffset = 0, tooffset = 0\<rparr>, \<lparr>to = 1, fromoffset = 8, tooffset = 0\<rparr>,
            \<lparr>to = 0, fromoffset = 0, tooffset = 0\<rparr>]" by simp
  moreover from m have "length (map edges (Dump.objects d')) = 2" by simp
  ultimately have e: "edges (Dump.objects d' ! 0) =
          [\<lparr>to = 1, fromoffset = 0, tooffset = 0\<rparr>, \<lparr>to = 1, fromoffset = 8, tooffset = 0\<rparr>,
            \<lparr>to = 0, fromoffset = 0, tooffset = 0\<rparr>]" by simp
  from field_edges_ordered[OF l ol x] ol x l e show ?thesis by blast
qed

end
